theory Spec2Isabelle
  imports Main "HOL-Library.Word"
begin

unbundle bit_operations_syntax

section \<open>The WebSocket client of wscpp (wsclient.cpp)\<close>

text \<open>
  A shallow embedding of \<^verbatim>\<open>src/wsclient.cpp\<close>: the frame encoder of
  \<^verbatim>\<open>client::send\<close>, the blocking reader \<^verbatim>\<open>client_pimpl::recv\<close>, the receive
  loop \<^verbatim>\<open>client_pimpl::recv_thread\<close> with its reassembly of fragments, the dispatch
  of \<^verbatim>\<open>client_pimpl::parse_ws_message\<close>, the task started by the constructor, and
  the parsing and checking of the HTTP response in \<^verbatim>\<open>client_pimpl::send_handshake\<close>.

  Bytes (\<^verbatim>\<open>char\<close>, \<^verbatim>\<open>uint8_t\<close>) are 8-bit words, \<^verbatim>\<open>uint64_t\<close> is a 64-bit word
  and \<^verbatim>\<open>unsigned int\<close> a 32-bit word. A payload (\<^verbatim>\<open>std::string\<close> used as a byte
  buffer) is a list of bytes.
\<close>

subsection \<open>Opcodes\<close>

type_synonym byte = "8 word"

text \<open>
  \<^verbatim>\<open>enum opcode\<close> is declared in \<^verbatim>\<open>wscpp.h\<close>, which is not part of the sources at
  hand. The code converts with \<^verbatim>\<open>(uint8_t)opcode\<close> and
  \<^verbatim>\<open>(enum opcode)(uint8_t)(header[0] & 0xf)\<close>, so an opcode is modelled by its 8-bit
  value. The value of the enumerator \<^verbatim>\<open>opcode::invalid\<close> is not known from the
  sources: every function that mentions it takes it as the parameter \<open>invalid\<close>.
\<close>

type_synonym opcode = "8 word"

text \<open>
  Modelled from the spec: the enumerators of \<^verbatim>\<open>enum opcode\<close> (declared in the absent
  \<^verbatim>\<open>wscpp.h\<close>) other than \<^verbatim>\<open>invalid\<close>; the spec gives them the values
  \<open>0x0\<close>--\<open>0xF\<close> of the wire format (RFC 6455, section 5.2).
\<close>

definition continuation :: opcode where "continuation = 0x0"
definition text_op :: opcode where "text_op = 0x1"
definition binary :: opcode where "binary = 0x2"
definition close :: opcode where "close = 0x8"
definition ping :: opcode where "ping = 0x9"
definition pong :: opcode where "pong = 0xA"

subsection \<open>Encoding a frame: \<^verbatim>\<open>client::send\<close>\<close>

text \<open>
  The header that \<^verbatim>\<open>client::send\<close> builds for an opcode and a payload length
  \<^verbatim>\<open>uint64_t len\<close>. The string is resized to 6, 8 or 14 bytes; the last four bytes
  (the mask key) are set to zero by \<^verbatim>\<open>memset\<close>.
\<close>

definition send_header :: "opcode \<Rightarrow> 64 word \<Rightarrow> byte list" where
  "send_header opc len =
     (if len \<le> 125 then
        [0x80 OR (opc AND 0xf), 0x80 OR ucast len, 0, 0, 0, 0]
      else if len < 0x10000 then
        [0x80 OR (opc AND 0xf), 0xfe,
         ucast (drop_bit 8 (len AND 0xff00)), ucast (len AND 0xff), 0, 0, 0, 0]
      else
        [0x80 OR (opc AND 0xf), 0xff,
         ucast (drop_bit 56 (len AND 0xff00000000000000)),
         ucast (drop_bit 48 (len AND 0xff000000000000)),
         ucast (drop_bit 40 (len AND 0xff0000000000)),
         ucast (drop_bit 32 (len AND 0xff00000000)),
         ucast (drop_bit 24 (len AND 0xff000000)),
         ucast (drop_bit 16 (len AND 0xff0000)),
         ucast (drop_bit 8 (len AND 0xff00)),
         ucast (len AND 0xff), 0, 0, 0, 0])"

subsection \<open>The socket\<close>

text \<open>
  The socket is not part of the program. Its behaviour is a script: \<open>rx\<close> lists what
  the successive calls of \<^verbatim>\<open>::recv\<close> find, \<open>tx\<close> what the successive calls of
  \<^verbatim>\<open>::send\<close> return.

  \<^item> \<open>Data bs\<close>: the bytes \<open>bs\<close> are available. A call asking for fewer takes a
    prefix and leaves the rest; a call asking for more gets them all (a short read).
    No bytes at all is the return value 0.
  \<^item> \<open>Eof\<close>: \<^verbatim>\<open>::recv\<close> returns 0, the peer has closed.
  \<^item> \<open>Err e\<close>: \<^verbatim>\<open>::recv\<close> returns -1 with \<^verbatim>\<open>errno\<close> \<open>e\<close>.
  \<^item> On an exhausted script the call does not return.
  \<^item> \<open>Accepted n\<close>: \<^verbatim>\<open>::send\<close> returns \<open>n\<close>; \<open>Refused e\<close>: it returns -1 with
    \<^verbatim>\<open>errno\<close> \<open>e\<close>.
\<close>

datatype rx_event = Data "byte list" | Eof | Err int

datatype tx_result = Accepted nat | Refused int

text \<open>The values of \<^verbatim>\<open>errno\<close> the code tests for (Linux, the branch without \<^verbatim>\<open>_WIN32\<close>).\<close>

definition EWOULDBLOCK :: int where "EWOULDBLOCK = 11"
definition ECONNRESET :: int where "ECONNRESET = 104"

text \<open>The \<^verbatim>\<open>runtime_error\<close>s thrown after the handshake.\<close>

datatype error =
    Recv_failed int       \<comment> \<open>\<^verbatim>\<open>"recv failed (" + to_string(err) + ")."\<close>\<close>
  | Send_failed int       \<comment> \<open>\<^verbatim>\<open>"send failed (error " + to_string(errno) + ")"\<close>\<close>
  | Send_short nat nat    \<comment> \<open>\<^verbatim>\<open>"send sent " + ret + " bytes, expected " + length\<close>\<close>

text \<open>
  How a call ends: it returns a value, it throws, or it never returns because the
  socket's script is exhausted, in \<^verbatim>\<open>::recv\<close> or in \<^verbatim>\<open>::send\<close>.
\<close>

datatype blocked = In_recv | In_send

datatype 'a outcome = Ret 'a | Throw error | Block blocked

text \<open>
  What the outside sees, in order: the bytes of each \<^verbatim>\<open>::send\<close>, each call of the
  message handler (payload, opcode) and each call of the disconnect handler (the
  captured exception, if any).
\<close>

datatype event =
    Wrote "byte list"
  | Message "byte list" opcode
  | Disconnect "error option"

text \<open>
  The fields of \<^verbatim>\<open>client_pimpl\<close> the receive path uses (\<open>is_open\<close> is the field
  \<^verbatim>\<open>open\<close>, which \<^verbatim>\<open>client::is_open\<close> returns), the socket's scripts and the
  trace of events. \<open>has_msg_handler\<close> and \<open>has_disconn_handler\<close> say whether the
  \<^verbatim>\<open>std::function\<close> handlers are non-empty: the code tests them before each call.
  A handler is application code; it is taken to return without touching the client.
\<close>

record client_pimpl =
  is_open :: bool
  last_opcode :: opcode
  payloadbuf :: "byte list"
  has_msg_handler :: bool
  has_disconn_handler :: bool
  rx :: "rx_event list"
  tx :: "tx_result list"
  trace :: "event list"

subsection \<open>\<^verbatim>\<open>client_pimpl::send_raw\<close> and \<^verbatim>\<open>client::send\<close>\<close>

text \<open>
  \<^verbatim>\<open>send_raw\<close> with \<^verbatim>\<open>timeout == 0\<close> (no \<^verbatim>\<open>setsockopt\<close>): one \<^verbatim>\<open>::send\<close>; -1 throws,
  fewer bytes than asked throws. The bytes that \<^verbatim>\<open>::send\<close> took are on the wire in
  both cases.
\<close>

definition send_raw :: "byte list \<Rightarrow> client_pimpl \<Rightarrow> unit outcome \<times> client_pimpl" where
  "send_raw s c =
     (case tx c of
        [] \<Rightarrow> (Block In_send, c)
      | Refused e # ts \<Rightarrow> (Throw (Send_failed e), c\<lparr>tx := ts\<rparr>)
      | Accepted n # ts \<Rightarrow>
          (if n < length s
           then (Throw (Send_short n (length s)), c\<lparr>tx := ts, trace := trace c @ [Wrote (take n s)]\<rparr>)
           else (Ret (), c\<lparr>tx := ts, trace := trace c @ [Wrote s]\<rparr>)))"

text \<open>
  \<^verbatim>\<open>client::send\<close>: the header for \<^verbatim>\<open>len = payload.length()\<close>, then two writes,
  the header and the payload.
\<close>

definition send :: "byte list \<Rightarrow> opcode \<Rightarrow> client_pimpl \<Rightarrow> unit outcome \<times> client_pimpl" where
  "send payload opc c =
     (case send_raw (send_header opc (of_nat (length payload))) c of
        (Ret u, c') \<Rightarrow> send_raw payload c'
      | (Throw e, c') \<Rightarrow> (Throw e, c')
      | (Block b, c') \<Rightarrow> (Block b, c'))"

text \<open>The bytes of one frame as \<^verbatim>\<open>client::send\<close> writes them.\<close>

definition frame_bytes :: "opcode \<Rightarrow> byte list \<Rightarrow> byte list" where
  "frame_bytes opc payload = send_header opc (of_nat (length payload)) @ payload"

text \<open>
  The bytes that a sequence of events has put on the wire: what the calls of
  \<^verbatim>\<open>::send\<close> have written, in order.
\<close>

fun wire :: "event list \<Rightarrow> byte list" where
  "wire [] = []"
| "wire (Wrote bs # evs) = bs @ wire evs"
| "wire (Message p opc # evs) = wire evs"
| "wire (Disconnect x # evs) = wire evs"

subsection \<open>\<^verbatim>\<open>client_pimpl::recv\<close>\<close>

text \<open>
  The \<^verbatim>\<open>do ... while (left > 0)\<close> loop of \<^verbatim>\<open>recv\<close>: \<open>left\<close> bytes are still wanted,
  \<open>acc\<close> is what the buffer holds so far. \<^verbatim>\<open>EWOULDBLOCK\<close> continues the loop, any
  other error breaks out of it, 0 returns at once.
\<close>

datatype rd = Filled "byte list" | Zero | Failed int | Starved

fun recv_loop :: "nat \<Rightarrow> byte list \<Rightarrow> rx_event list \<Rightarrow> rd \<times> rx_event list" where
  "recv_loop left acc [] = (Starved, [])"
| "recv_loop left acc (Eof # es) = (Zero, es)"
| "recv_loop left acc (Err e # es) =
     (if e = EWOULDBLOCK then recv_loop left acc es else (Failed e, es))"
| "recv_loop left acc (Data bs # es) =
     (if bs = [] then (Zero, es)
      else if left \<le> length bs
      then (Filled (acc @ take left bs),
            if left < length bs then Data (drop left bs) # es else es)
      else recv_loop (left - length bs) (acc @ bs) es)"

text \<open>
  \<^verbatim>\<open>recv(len)\<close>: a length of 0 asks for 4096 bytes. A read of 0 and
  \<^verbatim>\<open>ECONNRESET\<close> clear \<^verbatim>\<open>open\<close> and return the empty string; any other error
  throws.
\<close>

definition recv :: "nat \<Rightarrow> client_pimpl \<Rightarrow> byte list outcome \<times> client_pimpl" where
  "recv len c =
     (case recv_loop (if len = 0 then 4096 else len) [] (rx c) of
        (Filled s, es) \<Rightarrow> (Ret s, c\<lparr>rx := es\<rparr>)
      | (Zero, es) \<Rightarrow> (Ret [], c\<lparr>is_open := False, rx := es\<rparr>)
      | (Failed e, es) \<Rightarrow>
          (if e = ECONNRESET then (Ret [], c\<lparr>is_open := False, rx := es\<rparr>)
           else (Throw (Recv_failed e), c\<lparr>rx := es\<rparr>))
      | (Starved, es) \<Rightarrow> (Block In_recv, c\<lparr>rx := es\<rparr>))"

subsection \<open>\<^verbatim>\<open>client_pimpl::parse_ws_message\<close>\<close>

definition parse_ws_message ::
  "opcode \<Rightarrow> byte list \<Rightarrow> client_pimpl \<Rightarrow> unit outcome \<times> client_pimpl" where
  "parse_ws_message opc payload c =
     (if opc = close then (Ret (), c\<lparr>is_open := False\<rparr>)
      else
        (case (if opc = ping then send payload pong c else (Ret (), c)) of
           (Ret u, c') \<Rightarrow>
             (Ret (), if has_msg_handler c'
                      then c'\<lparr>trace := trace c' @ [Message payload opc]\<rparr> else c')
         | (Throw e, c') \<Rightarrow> (Throw e, c')
         | (Block b, c') \<Rightarrow> (Block b, c')))"

subsection \<open>\<^verbatim>\<open>client_pimpl::recv_thread\<close>\<close>

record frame =
  fin :: bool
  opcode :: opcode
  payload :: "byte list"

text \<open>
  A \<^verbatim>\<open>recv\<close> followed by \<^verbatim>\<open>if (!open) break;\<close>. The result \<open>Ret None\<close> is the
  \<^verbatim>\<open>break\<close>; otherwise the rest of the loop body \<open>k\<close> goes on with the bytes read.
\<close>

definition recv_or_break ::
  "nat \<Rightarrow> (byte list \<Rightarrow> client_pimpl \<Rightarrow> 'a option outcome \<times> client_pimpl) \<Rightarrow>
   client_pimpl \<Rightarrow> 'a option outcome \<times> client_pimpl" where
  "recv_or_break len k c =
     (case recv len c of
        (Ret s, c') \<Rightarrow> if is_open c' then k s c' else (Ret None, c')
      | (Throw e, c') \<Rightarrow> (Throw e, c')
      | (Block b, c') \<Rightarrow> (Block b, c'))"

text \<open>The extended length: nothing, 2 bytes or 8 bytes, big-endian.\<close>

definition read_extlen ::
  "64 word \<Rightarrow> (64 word \<Rightarrow> client_pimpl \<Rightarrow> 'a option outcome \<times> client_pimpl) \<Rightarrow>
   client_pimpl \<Rightarrow> 'a option outcome \<times> client_pimpl" where
  "read_extlen len k =
     (if len = 126 then
        recv_or_break 2 (\<lambda>extlen. k (push_bit 8 (ucast (extlen ! 0)) OR ucast (extlen ! 1)))
      else if len = 127 then
        recv_or_break 8 (\<lambda>extlen. k (foldl (\<lambda>l b. push_bit 8 l OR ucast b) 0 extlen))
      else k len)"

text \<open>The mask key, when the mask bit is set.\<close>

definition read_mask ::
  "bool \<Rightarrow> (byte list \<Rightarrow> client_pimpl \<Rightarrow> 'a option outcome \<times> client_pimpl) \<Rightarrow>
   client_pimpl \<Rightarrow> 'a option outcome \<times> client_pimpl" where
  "read_mask masked k = (if masked then recv_or_break 4 k else k [])"

text \<open>
  The payload: \<^verbatim>\<open>len == 0 ? "" : recv((unsigned int)len)\<close>, then
  \<^verbatim>\<open>if (!open) break;\<close>. The cast keeps the low 32 bits of the length.
\<close>

definition read_payload ::
  "64 word \<Rightarrow> (byte list \<Rightarrow> client_pimpl \<Rightarrow> 'a option outcome \<times> client_pimpl) \<Rightarrow>
   client_pimpl \<Rightarrow> 'a option outcome \<times> client_pimpl" where
  "read_payload len k =
     (if len = 0 then (\<lambda>c. if is_open c then k [] c else (Ret None, c))
      else recv_or_break (unat (ucast len :: 32 word)) k)"

text \<open>\<^verbatim>\<open>payload[i] ^= mask_key[i % 4]\<close> for every index of the payload.\<close>

definition unmask :: "byte list \<Rightarrow> byte list \<Rightarrow> byte list" where
  "unmask mask_key body =
     map (\<lambda>i. body ! i XOR mask_key ! (i mod 4)) [0 ..< length body]"

text \<open>
  The first part of the loop body: the frame's header, extended length, mask key and
  payload are read, and the payload is unmasked.
\<close>

definition read_frame :: "client_pimpl \<Rightarrow> frame option outcome \<times> client_pimpl" where
  "read_frame =
     recv_or_break 2 (\<lambda>header.
       read_extlen (ucast (header ! 1 AND 0x7f)) (\<lambda>len.
         read_mask ((header ! 1 AND 0x80) \<noteq> 0) (\<lambda>mask_key.
           read_payload len (\<lambda>body c.
             (Ret (Some \<lparr>fin = ((header ! 0 AND 0x80) \<noteq> 0),
                         opcode = header ! 0 AND 0xf,
                         payload = (if (header ! 1 AND 0x80) \<noteq> 0
                                    then unmask mask_key body else body)\<rparr>), c)))))"

text \<open>
  The second part of the loop body, the reassembly: a frame without FIN is kept, a
  frame with FIN is handed to \<^verbatim>\<open>parse_ws_message\<close>, with what was kept if there is
  any. \<open>invalid\<close> is the value of \<^verbatim>\<open>opcode::invalid\<close>.
\<close>

definition handle_frame :: "opcode \<Rightarrow> frame \<Rightarrow> client_pimpl \<Rightarrow> unit outcome \<times> client_pimpl" where
  "handle_frame invalid f c =
     (if \<not> fin f then
        (Ret (), c\<lparr>last_opcode := (if opcode f \<noteq> invalid then opcode f else last_opcode c),
                   payloadbuf := payloadbuf c @ payload f\<rparr>)
      else if payloadbuf c \<noteq> [] then
        (case parse_ws_message (last_opcode c) (payloadbuf c @ payload f) c of
           (Ret u, c') \<Rightarrow> (Ret (), c'\<lparr>payloadbuf := []\<rparr>)
         | (Throw e, c') \<Rightarrow> (Throw e, c')
         | (Block b, c') \<Rightarrow> (Block b, c'))
      else parse_ws_message (opcode f) (payload f) c)"

text \<open>
  The loop ends because every frame that is read takes bytes from the socket's script:
  \<open>rx_size\<close> counts the events and the bytes that are left.
\<close>

fun rx_size :: "rx_event list \<Rightarrow> nat" where
  "rx_size [] = 0"
| "rx_size (Data bs # es) = Suc (length bs) + rx_size es"
| "rx_size (e # es) = Suc (rx_size es)"

lemma recv_loop_size:
  "recv_loop left acc es = (r, es') \<Longrightarrow> rx_size es' \<le> rx_size es"
  by (induction left acc es rule: recv_loop.induct) (auto split: if_splits)

lemma recv_loop_size_Filled:
  "recv_loop left acc es = (Filled s, es') \<Longrightarrow> 0 < left \<Longrightarrow> rx_size es' < rx_size es"
  by (induction left acc es rule: recv_loop.induct) (auto split: if_splits dest: recv_loop_size)

lemma recv_size: "recv n c = (r, c') \<Longrightarrow> rx_size (rx c') \<le> rx_size (rx c)"
  by (auto simp: recv_def split: prod.splits rd.splits if_splits dest: recv_loop_size)

lemma recv_size_open:
  "recv n c = (Ret s, c') \<Longrightarrow> is_open c' \<Longrightarrow> rx_size (rx c') < rx_size (rx c)"
  by (auto simp: recv_def split: prod.splits rd.splits if_splits dest: recv_loop_size_Filled)

lemma recv_or_break_size:
  assumes "recv_or_break n k c = (Ret (Some f), c2)"
    and "\<And>s c1. k s c1 = (Ret (Some f), c2) \<Longrightarrow> rx_size (rx c2) \<le> rx_size (rx c1)"
  shows "rx_size (rx c2) < rx_size (rx c)"
  using assms
  by (fastforce simp: recv_or_break_def split: prod.splits outcome.splits if_splits dest: recv_size_open)

lemma read_extlen_size:
  assumes "read_extlen l k c = (Ret (Some f), c2)"
    and "\<And>s c1. k s c1 = (Ret (Some f), c2) \<Longrightarrow> rx_size (rx c2) \<le> rx_size (rx c1)"
  shows "rx_size (rx c2) \<le> rx_size (rx c)"
proof -
  consider "l = 126" | "l \<noteq> 126" "l = 127" | "l \<noteq> 126" "l \<noteq> 127" by blast
  then show ?thesis
  proof cases
    case 1
    with assms(1) have "recv_or_break 2
        (\<lambda>extlen. k (push_bit 8 (ucast (extlen ! 0)) OR ucast (extlen ! 1))) c = (Ret (Some f), c2)"
      by (simp add: read_extlen_def)
    then have "rx_size (rx c2) < rx_size (rx c)"
      by (rule recv_or_break_size) (rule assms(2))
    then show ?thesis by simp
  next
    case 2
    with assms(1) have "recv_or_break 8
        (\<lambda>extlen. k (foldl (\<lambda>l b. push_bit 8 l OR ucast b) 0 extlen)) c = (Ret (Some f), c2)"
      by (simp add: read_extlen_def)
    then have "rx_size (rx c2) < rx_size (rx c)"
      by (rule recv_or_break_size) (rule assms(2))
    then show ?thesis by simp
  next
    case 3
    with assms(1) have "k l c = (Ret (Some f), c2)" by (simp add: read_extlen_def)
    from assms(2)[OF this] show ?thesis .
  qed
qed

lemma read_mask_size:
  assumes "read_mask m k c = (Ret (Some f), c2)"
    and "\<And>s c1. k s c1 = (Ret (Some f), c2) \<Longrightarrow> rx_size (rx c2) \<le> rx_size (rx c1)"
  shows "rx_size (rx c2) \<le> rx_size (rx c)"
proof (cases m)
  case True
  with assms(1) have "recv_or_break 4 k c = (Ret (Some f), c2)" by (simp add: read_mask_def)
  then have "rx_size (rx c2) < rx_size (rx c)"
    by (rule recv_or_break_size) (rule assms(2))
  then show ?thesis by simp
next
  case False
  with assms(1) have "k [] c = (Ret (Some f), c2)" by (simp add: read_mask_def)
  from assms(2)[OF this] show ?thesis .
qed

lemma read_payload_size:
  assumes "read_payload l k c = (Ret (Some f), c2)"
    and "\<And>s c1. k s c1 = (Ret (Some f), c2) \<Longrightarrow> rx_size (rx c2) \<le> rx_size (rx c1)"
  shows "rx_size (rx c2) \<le> rx_size (rx c)"
proof (cases "l = 0")
  case True
  with assms(1) have "k [] c = (Ret (Some f), c2)"
    by (simp add: read_payload_def split: if_splits)
  from assms(2)[OF this] show ?thesis .
next
  case False
  with assms(1) have "recv_or_break (unat (ucast l :: 32 word)) k c = (Ret (Some f), c2)"
    by (simp add: read_payload_def)
  then have "rx_size (rx c2) < rx_size (rx c)"
    by (rule recv_or_break_size) (rule assms(2))
  then show ?thesis by simp
qed

lemma read_frame_size:
  "read_frame c = (Ret (Some f), c') \<Longrightarrow> rx_size (rx c') < rx_size (rx c)"
  unfolding read_frame_def
  apply (erule recv_or_break_size)
  apply (erule read_extlen_size)
  apply (erule read_mask_size)
  apply (erule read_payload_size)
  apply simp
  done

lemma send_raw_rx: "send_raw s c = (r, c') \<Longrightarrow> rx c' = rx c"
  by (auto simp: send_raw_def split: list.splits tx_result.splits if_splits)

lemma send_rx: "send p opc c = (r, c') \<Longrightarrow> rx c' = rx c"
  using send_raw_rx by (fastforce simp: send_def split: prod.splits outcome.splits)

lemma parse_ws_message_rx: "parse_ws_message opc p c = (r, c') \<Longrightarrow> rx c' = rx c"
  by (auto simp: parse_ws_message_def split: prod.splits outcome.splits if_splits dest: send_rx)

lemma handle_frame_rx: "handle_frame invalid f c = (r, c') \<Longrightarrow> rx c' = rx c"
  by (auto simp: handle_frame_def split: prod.splits outcome.splits if_splits dest: parse_ws_message_rx)

text \<open>
  The loop \<^verbatim>\<open>while (open)\<close>: a \<^verbatim>\<open>break\<close> leaves it, an exception leaves it, and it
  never returns if the socket has nothing more to say.
\<close>

function recv_thread :: "opcode \<Rightarrow> client_pimpl \<Rightarrow> unit outcome \<times> client_pimpl" where
  "recv_thread invalid c =
     (if \<not> is_open c then (Ret (), c)
      else
        (case read_frame c of
           (Ret None, c1) \<Rightarrow> (Ret (), c1)
         | (Ret (Some f), c1) \<Rightarrow>
             (case handle_frame invalid f c1 of
                (Ret u, c2) \<Rightarrow> recv_thread invalid c2
              | (Throw e, c2) \<Rightarrow> (Throw e, c2)
              | (Block b, c2) \<Rightarrow> (Block b, c2))
         | (Throw e, c1) \<Rightarrow> (Throw e, c1)
         | (Block b, c1) \<Rightarrow> (Block b, c1)))"
  by pat_completeness auto
termination
  apply (relation "measure (\<lambda>(invalid, c). rx_size (rx c))")
   apply simp
  apply (auto dest!: read_frame_size handle_frame_rx sym[of "(_, _)" "read_frame _"] sym[of "(_, _)" "handle_frame _ _ _"])
  done

declare recv_thread.simps [simp del]

subsection \<open>The receive task and the destructor\<close>

text \<open>
  The lambda that the constructor of \<^verbatim>\<open>client_pimpl\<close> runs in a thread: the loop,
  with every exception caught; then \<^verbatim>\<open>open = false\<close> and the disconnect handler, if
  there is one, with the exception or none.
\<close>

definition receive_task :: "opcode \<Rightarrow> client_pimpl \<Rightarrow> unit outcome \<times> client_pimpl" where
  "receive_task invalid c =
     (case recv_thread invalid c of
        (Block b, c1) \<Rightarrow> (Block b, c1)
      | (r, c1) \<Rightarrow>
          (Ret (), if has_disconn_handler c1
                   then c1\<lparr>is_open := False,
                           trace := trace c1 @ [Disconnect (case r of Throw e \<Rightarrow> Some e | _ \<Rightarrow> None)]\<rparr>
                   else c1\<lparr>is_open := False\<rparr>))"

text \<open>
  The destructor: if \<^verbatim>\<open>shutdown\<close> succeeds (\<open>shutdown_ok\<close>), everything the socket
  still delivers is read and dropped until \<^verbatim>\<open>::recv\<close> returns 0 or -1, and the socket
  is closed; then the thread is joined. No handler is called.
\<close>

fun drain :: "rx_event list \<Rightarrow> rx_event list option" where
  "drain [] = None"
| "drain (Data bs # es) = (if bs = [] then Some es else drain es)"
| "drain (e # es) = Some es"

definition client_pimpl_dtor :: "bool \<Rightarrow> client_pimpl \<Rightarrow> unit outcome \<times> client_pimpl" where
  "client_pimpl_dtor shutdown_ok c =
     (if shutdown_ok then
        (case drain (rx c) of
           None \<Rightarrow> (Block In_recv, c\<lparr>rx := []\<rparr>)
         | Some es \<Rightarrow> (Ret (), c\<lparr>rx := es\<rparr>))
      else (Ret (), c))"

subsection \<open>Reading a big-endian field\<close>

text \<open>The number that a sequence of bytes denotes, most significant byte first.\<close>

definition be_value :: "byte list \<Rightarrow> nat" where
  "be_value bs = foldl (\<lambda>v b. 256 * v + unat b) 0 bs"


subsection \<open>The frames that the loop reads\<close>

text \<open>
  The frames that \<^verbatim>\<open>recv_thread\<close> reads and hands to the reassembly, in order: the
  same loop, keeping the frames instead of the result.
\<close>

function frames_read :: "opcode \<Rightarrow> client_pimpl \<Rightarrow> frame list" where
  "frames_read invalid c =
     (if \<not> is_open c then []
      else
        (case read_frame c of
           (Ret (Some f), c1) \<Rightarrow>
             f # (case handle_frame invalid f c1 of
                    (Ret u, c2) \<Rightarrow> frames_read invalid c2
                  | (Throw e, c2) \<Rightarrow> []
                  | (Block b, c2) \<Rightarrow> [])
         | (Ret None, c1) \<Rightarrow> []
         | (Throw e, c1) \<Rightarrow> []
         | (Block b, c1) \<Rightarrow> []))"
  by pat_completeness auto
termination
  apply (relation "measure (\<lambda>(invalid, c). rx_size (rx c))")
   apply simp
  apply (auto dest!: read_frame_size handle_frame_rx sym[of "(_, _)" "read_frame _"] sym[of "(_, _)" "handle_frame _ _ _"])
  done

declare frames_read.simps [simp del]

subsection \<open>The reassembly rules of the specification\<close>

text \<open>
  The messages that the three rules of the specification yield for a list of frames,
  from a pending opcode and an accumulation buffer, each with its payload and its
  opcode: a frame without FIN makes its opcode the pending one if it is not
  \<^verbatim>\<open>invalid\<close>, is appended to the buffer and yields nothing; a frame with FIN and a
  non-empty buffer yields the buffer followed by its payload, with the pending opcode,
  and clears the buffer; a frame with FIN and an empty buffer yields its own payload
  and opcode. This function is not part of the code: the loop of \<^verbatim>\<open>recv_thread\<close> is
  compared with it.
\<close>

fun spec_dispatch :: "opcode \<Rightarrow> frame list \<Rightarrow> opcode \<Rightarrow> byte list \<Rightarrow> (byte list \<times> opcode) list" where
  "spec_dispatch invalid [] pending buf = []"
| "spec_dispatch invalid (f # fs) pending buf =
     (if \<not> fin f then
        spec_dispatch invalid fs (if opcode f \<noteq> invalid then opcode f else pending) (buf @ payload f)
      else if buf \<noteq> [] then (buf @ payload f, pending) # spec_dispatch invalid fs pending []
      else (payload f, opcode f) # spec_dispatch invalid fs pending buf)"

subsection \<open>What reading leaves alone\<close>

text \<open>
  \<open>keeps c c'\<close>: from \<open>c\<close> to \<open>c'\<close> only the socket's input and the flag \<^verbatim>\<open>open\<close>
  have changed, and the flag has not been set.
\<close>

definition keeps :: "client_pimpl \<Rightarrow> client_pimpl \<Rightarrow> bool" where
  "keeps c c' \<longleftrightarrow>
     last_opcode c' = last_opcode c \<and> payloadbuf c' = payloadbuf c \<and>
     has_msg_handler c' = has_msg_handler c \<and> has_disconn_handler c' = has_disconn_handler c \<and>
     tx c' = tx c \<and> trace c' = trace c \<and> (is_open c' \<longrightarrow> is_open c)"

subsection \<open>Connections used as examples\<close>

text \<open>
  The peer sends the three frames [FIN=0, text, "Hel"], [FIN=0, continuation, "lo "],
  [FIN=1, continuation, "World"] (unmasked, as a server does) and closes.
\<close>

definition hello_client :: client_pimpl where
  "hello_client =
     \<lparr>is_open = True, last_opcode = binary, payloadbuf = [], has_msg_handler = True,
      has_disconn_handler = True,
      rx = [Data ([0x01, 0x03] @ map of_char ''Hel'' @ [0x00, 0x03] @ map of_char ''lo ''
                  @ [0x80, 0x05] @ map of_char ''World''), Eof],
      tx = [], trace = []\<rparr>"

text \<open>The peer sends one frame [FIN=1, continuation, "x"] and closes.\<close>

definition orphan_client :: client_pimpl where
  "orphan_client =
     \<lparr>is_open = True, last_opcode = text_op, payloadbuf = [], has_msg_handler = True,
      has_disconn_handler = True, rx = [Data [0x80, 0x01, 0x78], Eof], tx = [], trace = []\<rparr>"

text \<open>A connection whose next \<^verbatim>\<open>::send\<close> fails with \<^verbatim>\<open>EPIPE\<close> (32).\<close>

definition refused_client :: client_pimpl where
  "refused_client =
     \<lparr>is_open = True, last_opcode = text_op, payloadbuf = [], has_msg_handler = True,
      has_disconn_handler = True, rx = [], tx = [Refused 32], trace = []\<rparr>"

text \<open>The peer sends two close frames [FIN=1, close, ""].\<close>

definition close_client :: client_pimpl where
  "close_client =
     \<lparr>is_open = True, last_opcode = text_op, payloadbuf = [], has_msg_handler = True,
      has_disconn_handler = True, rx = [Data [0x88, 0x00, 0x88, 0x00]], tx = [], trace = []\<rparr>"

subsection \<open>More input for the socket\<close>

text \<open>
  \<open>feed c evs\<close>: the connection \<open>c\<close> with the events \<open>evs\<close> added at the end of what
  the socket delivers.
\<close>

definition feed :: "client_pimpl \<Rightarrow> rx_event list \<Rightarrow> client_pimpl" where
  "feed c evs = c\<lparr>rx := rx c @ evs\<rparr>"

text \<open>
  \<open>good m\<close>: the reading step \<open>m\<close> is not disturbed by input that comes after what it
  reads; and where it waits for input that does not come, the next event decides: end
  of stream and \<^verbatim>\<open>ECONNRESET\<close> close the connection and leave the loop,
  \<^verbatim>\<open>EWOULDBLOCK\<close> is passed over, any other error throws.
\<close>

definition good :: "(client_pimpl \<Rightarrow> 'a option outcome \<times> client_pimpl) \<Rightarrow> bool" where
  "good m \<longleftrightarrow>
     (\<forall>c r c' X. m c = (r, c') \<and> r \<noteq> Block In_recv \<longrightarrow> m (feed c X) = (r, feed c' X)) \<and>
     (\<forall>c cB rest e. m c = (Block In_recv, cB) \<longrightarrow>
        m (feed c (Eof # rest)) = (Ret None, cB\<lparr>is_open := False, rx := rest\<rparr>) \<and>
        m (feed c (Err e # rest)) =
          (if e = EWOULDBLOCK then m (feed c rest)
           else if e = ECONNRESET then (Ret None, cB\<lparr>is_open := False, rx := rest\<rparr>)
           else (Throw (Recv_failed e), cB\<lparr>rx := rest\<rparr>)))"

text \<open>
  \<open>starves m w\<close>: on an open connection on which exactly the bytes \<open>w\<close> have come, in
  whatever pieces, the reading step \<open>m\<close> takes them all and then waits in \<^verbatim>\<open>::recv\<close>.
\<close>

definition starves :: "(client_pimpl \<Rightarrow> 'a option outcome \<times> client_pimpl) \<Rightarrow> byte list \<Rightarrow> bool" where
  "starves m w \<longleftrightarrow>
     (\<forall>c chs. is_open c \<and> rx c = map Data chs \<and> [] \<notin> set chs \<and> concat chs = w \<longrightarrow>
        m c = (Block In_recv, c\<lparr>rx := []\<rparr>))"

text \<open>
  A connection on which the peer has sent the given bytes and nothing else so far, and a
  connection whose first read fails with \<^verbatim>\<open>ECONNRESET\<close>.
\<close>

definition partial_client :: "byte list \<Rightarrow> client_pimpl" where
  "partial_client bytes =
     \<lparr>is_open = True, last_opcode = text_op, payloadbuf = [], has_msg_handler = True,
      has_disconn_handler = True, rx = [Data bytes], tx = [], trace = []\<rparr>"

definition reset_client :: client_pimpl where
  "reset_client =
     \<lparr>is_open = True, last_opcode = text_op, payloadbuf = [], has_msg_handler = True,
      has_disconn_handler = True, rx = [Err ECONNRESET], tx = [], trace = []\<rparr>"

section \<open>The opening handshake: \<^verbatim>\<open>client_pimpl::send_handshake\<close>\<close>

text \<open>
  The part of \<^verbatim>\<open>send_handshake\<close> that deals with one response: the parsing of the
  status line and of the header lines into a \<^verbatim>\<open>std::map\<close>, and the checks on the
  result. Text (\<^verbatim>\<open>std::string\<close>) is a list of 8-bit characters. The key comes from
  \<^verbatim>\<open>random_key\<close> and the response from \<^verbatim>\<open>recv_http\<close>; both are parameters here.
\<close>

definition MAGIC_STRING :: string where
  "MAGIC_STRING = ''258EAFA5-E914-47DA-95CA-C5AB0DC85B11''"

subsection \<open>SHA-1 and base64\<close>

text \<open>
  Modelled from the spec: \<^verbatim>\<open>sha1\<close> and \<^verbatim>\<open>b64encode\<close>, declared in \<^verbatim>\<open>sha1.h\<close>
  and \<^verbatim>\<open>b64.h\<close>, are not part of the sources at hand. The spec names them as
  \<^verbatim>\<open>sha1(bytes) -> 20-byte digest\<close> and \<^verbatim>\<open>base64_encode(bytes) -> text\<close>; they are
  modelled as the SHA-1 of RFC 3174 and the base64 of RFC 4648. A byte is an integer
  from 0 to 255 and a 32-bit word an integer below \<open>2 ^ 32\<close>, with the wrap-around
  written out (\<open>w32\<close>).
\<close>

definition w32 :: "int \<Rightarrow> int" where
  "w32 x = x mod 4294967296"

definition rotl :: "nat \<Rightarrow> int \<Rightarrow> int" where
  "rotl n x = or (w32 (push_bit n x)) (drop_bit (32 - n) x)"

fun be32 :: "int list \<Rightarrow> int list" where
  "be32 (a # b # c # d # rest) = (a * 16777216 + b * 65536 + c * 256 + d) # be32 rest"
| "be32 _ = []"

definition be_bytes32 :: "int \<Rightarrow> int list" where
  "be_bytes32 w = [w div 16777216, w div 65536 mod 256, w div 256 mod 256, w mod 256]"

definition be_bytes64 :: "int \<Rightarrow> int list" where
  "be_bytes64 w = [w div 2 ^ 56 mod 256, w div 2 ^ 48 mod 256, w div 2 ^ 40 mod 256,
     w div 2 ^ 32 mod 256, w div 2 ^ 24 mod 256, w div 2 ^ 16 mod 256, w div 2 ^ 8 mod 256,
     w mod 256]"

definition sha1_pad :: "int list \<Rightarrow> int list" where
  "sha1_pad m = m @ [0x80] @ replicate ((119 - length m mod 64) mod 64) 0
                 @ be_bytes64 (8 * int (length m))"

fun sha1_expand :: "nat \<Rightarrow> int list \<Rightarrow> int list" where
  "sha1_expand 0 ws = ws"
| "sha1_expand (Suc n) ws =
     sha1_expand n (rotl 1 (xor (xor (xor (ws ! 2) (ws ! 7)) (ws ! 13)) (ws ! 15)) # ws)"

definition sha1_f :: "nat \<Rightarrow> int \<Rightarrow> int \<Rightarrow> int \<Rightarrow> int" where
  "sha1_f t b c d =
     (if t < 20 then or (and b c) (and (xor b 4294967295) d)
      else if t < 40 then xor (xor b c) d
      else if t < 60 then or (or (and b c) (and b d)) (and c d)
      else xor (xor b c) d)"

definition sha1_k :: "nat \<Rightarrow> int" where
  "sha1_k t = (if t < 20 then 0x5A827999 else if t < 40 then 0x6ED9EBA1
               else if t < 60 then 0x8F1BBCDC else 0xCA62C1D6)"

fun sha1_rounds :: "nat \<Rightarrow> int list \<Rightarrow> int \<times> int \<times> int \<times> int \<times> int \<Rightarrow> int \<times> int \<times> int \<times> int \<times> int" where
  "sha1_rounds t [] s = s"
| "sha1_rounds t (w # ws) (a, b, c, d, e) =
     sha1_rounds (Suc t) ws (w32 (rotl 5 a + sha1_f t b c d + e + sha1_k t + w), a, rotl 30 b, c, d)"

definition sha1_block :: "int \<times> int \<times> int \<times> int \<times> int \<Rightarrow> int list \<Rightarrow> int \<times> int \<times> int \<times> int \<times> int" where
  "sha1_block h blk =
     (case h of (h0, h1, h2, h3, h4) \<Rightarrow>
       (case sha1_rounds 0 (rev (sha1_expand 64 (rev (be32 blk)))) h of
          (a, b, c, d, e) \<Rightarrow> (w32 (h0 + a), w32 (h1 + b), w32 (h2 + c), w32 (h3 + d), w32 (h4 + e))))"

fun sha1_blocks :: "nat \<Rightarrow> int \<times> int \<times> int \<times> int \<times> int \<Rightarrow> int list \<Rightarrow> int \<times> int \<times> int \<times> int \<times> int" where
  "sha1_blocks 0 h m = h"
| "sha1_blocks (Suc n) h m = sha1_blocks n (sha1_block h (take 64 m)) (drop 64 m)"

text \<open>
  Modelled from the spec: \<^verbatim>\<open>sha1\<close> of the absent \<^verbatim>\<open>sha1.h\<close>, the 20-byte SHA-1
  digest of a sequence of bytes.
\<close>

definition sha1 :: "int list \<Rightarrow> int list" where
  "sha1 m = (let p = sha1_pad m in
     case sha1_blocks (length p div 64)
            (0x67452301, 0xEFCDAB89, 0x98BADCFE, 0x10325476, 0xC3D2E1F0) p of
       (a, b, c, d, e) \<Rightarrow>
         be_bytes32 a @ be_bytes32 b @ be_bytes32 c @ be_bytes32 d @ be_bytes32 e)"

text \<open>
  Modelled from the spec: \<^verbatim>\<open>b64encode\<close> of the absent \<^verbatim>\<open>b64.h\<close>, the base64
  encoding of a sequence of bytes, with padding.
\<close>

definition b64_table :: string where
  "b64_table = ''ABCDEFGHIJKLMNOPQRSTUVWXYZabcdefghijklmnopqrstuvwxyz0123456789+/''"

definition b64_char :: "int \<Rightarrow> char" where
  "b64_char n = b64_table ! nat n"

fun b64encode :: "int list \<Rightarrow> string" where
  "b64encode (a # b # c # rest) =
     [b64_char (a div 4), b64_char (a mod 4 * 16 + b div 16),
      b64_char (b mod 16 * 4 + c div 64), b64_char (c mod 64)] @ b64encode rest"
| "b64encode [a, b] =
     [b64_char (a div 4), b64_char (a mod 4 * 16 + b div 16), b64_char (b mod 16 * 4), CHR ''='']"
| "b64encode [a] = [b64_char (a div 4), b64_char (a mod 4 * 16), CHR ''='', CHR ''='']"
| "b64encode [] = []"

text \<open>The value \<^verbatim>\<open>b64encode(sha1(key + MAGIC_STRING))\<close> that \<^verbatim>\<open>send_handshake\<close> expects.\<close>

definition accept_value :: "string \<Rightarrow> string" where
  "accept_value key = b64encode (sha1 (map of_char (key @ MAGIC_STRING)))"

subsection \<open>\<^verbatim>\<open>std::string::find\<close> and \<^verbatim>\<open>std::string::substr\<close>\<close>

text \<open>
  \<open>str_find s pat pos\<close> is \<^verbatim>\<open>s.find(pat, pos)\<close>, the first position from \<open>pos\<close> on
  where \<open>pat\<close> occurs; \<open>None\<close> is \<^verbatim>\<open>npos\<close>. \<open>substr_to s pos e\<close> is
  \<^verbatim>\<open>s.substr(pos, e - pos)\<close> for \<open>pos \<le> e\<close>: the characters from \<open>pos\<close> up to \<open>e\<close>, and
  up to the end of the text when \<open>e\<close> is \<^verbatim>\<open>npos\<close> (the count \<^verbatim>\<open>npos - pos\<close> reaches
  past the end).
\<close>

fun find_sub :: "string \<Rightarrow> string \<Rightarrow> nat \<Rightarrow> nat option" where
  "find_sub pat [] i = (if pat = [] then Some i else None)"
| "find_sub pat (c # cs) i =
     (if take (length pat) (c # cs) = pat then Some i else find_sub pat cs (Suc i))"

definition str_find :: "string \<Rightarrow> string \<Rightarrow> nat \<Rightarrow> nat option" where
  "str_find s pat pos = (if length s < pos then None else find_sub pat (drop pos s) pos)"

definition substr_to :: "string \<Rightarrow> nat \<Rightarrow> nat option \<Rightarrow> string" where
  "substr_to s pos e = (case e of None \<Rightarrow> drop pos s | Some n \<Rightarrow> take (n - pos) (drop pos s))"

definition CRLF :: string where
  "CRLF = [CHR 0x0D, CHR 0x0A]"

subsection \<open>\<^verbatim>\<open>std::stoul\<close>\<close>

text \<open>
  \<^verbatim>\<open>std::stoul\<close> in base 10, as \<^verbatim>\<open>strtoul\<close> does it: white space is skipped, a sign
  is allowed, then come decimal digits, as many as there are. No digit, or a value
  that does not fit 64 bits, throws (\<open>None\<close>); a minus sign negates modulo \<open>2 ^ 64\<close>.
\<close>

definition isspace :: "char \<Rightarrow> bool" where
  "isspace c \<longleftrightarrow> c \<in> {CHR 0x20, CHR 0x09, CHR 0x0A, CHR 0x0B, CHR 0x0C, CHR 0x0D}"

definition isdigit :: "char \<Rightarrow> bool" where
  "isdigit c \<longleftrightarrow> (48 :: nat) \<le> of_char c \<and> of_char c \<le> (57 :: nat)"

definition digits_value :: "string \<Rightarrow> nat" where
  "digits_value ds = foldl (\<lambda>v c. 10 * v + (of_char c - 48)) 0 ds"

definition stoul :: "string \<Rightarrow> nat option" where
  "stoul s =
     (let s1 = dropWhile isspace s;
          neg = (s1 \<noteq> [] \<and> hd s1 = CHR ''-'');
          s2 = (if s1 \<noteq> [] \<and> (hd s1 = CHR ''-'' \<or> hd s1 = CHR ''+'') then tl s1 else s1);
          ds = takeWhile isdigit s2
      in if ds = [] \<or> 2 ^ 64 \<le> digits_value ds then None
         else Some (if neg then (2 ^ 64 - digits_value ds) mod 2 ^ 64 else digits_value ds))"

subsection \<open>Parsing the response\<close>

text \<open>The \<^verbatim>\<open>runtime_error\<close>s that \<^verbatim>\<open>send_handshake\<close> throws.\<close>

datatype hs_error =
    Socket_closed
  | Stoul_failed string
  | Bad_status nat
  | Malformed_response
  | Invalid_accept

text \<open>
  The first round of the \<^verbatim>\<open>do ... while (nl != string::npos)\<close> loop, the status
  line: \<open>nl\<close> is the position of the first line end. The status is what \<^verbatim>\<open>stoul\<close>
  reads after the first space, cut to an \<^verbatim>\<open>unsigned int\<close>; it stays 0 when there is no
  space before the line end. (A space is never at the position of a line end, so the
  count \<^verbatim>\<open>nl - space - 1\<close> does not wrap.)
\<close>

definition parse_status_line :: "string \<Rightarrow> nat option \<Rightarrow> hs_error + nat" where
  "parse_status_line mess nl =
     (case str_find mess '' '' 0 of
        None \<Rightarrow> Inr 0
      | Some space \<Rightarrow>
          if (case nl of None \<Rightarrow> True | Some n \<Rightarrow> space \<le> n) then
            (let space2 = str_find mess '' '' (space + 1);
                 ss = (if (case space2 of None \<Rightarrow> True
                           | Some s2 \<Rightarrow> (case nl of None \<Rightarrow> False | Some n \<Rightarrow> n < s2))
                       then substr_to mess (space + 1) nl
                       else substr_to mess (space + 1) space2)
             in case stoul ss of
                  None \<Rightarrow> Inl (Stoul_failed ss)
                | Some v \<Rightarrow> Inr (v mod 2 ^ 32))
          else Inr 0)"

text \<open>\<^verbatim>\<open>std::map::emplace\<close>: a key that is already in the map keeps its value.\<close>

definition emplace :: "string \<Rightarrow> string \<Rightarrow> (string \<rightharpoonup> string) \<Rightarrow> (string \<rightharpoonup> string)" where
  "emplace k v h = (case h k of None \<Rightarrow> h(k \<mapsto> v) | Some old \<Rightarrow> h)"

text \<open>
  Every later round, a header line: \<open>nl2\<close> is where the line starts and \<open>nl\<close> where it
  ends. The name is what stands before the first \<^verbatim>\<open>": "\<close> found from \<open>nl2\<close> on, the
  value what stands between it and \<open>nl\<close>. When that \<^verbatim>\<open>": "\<close> is beyond the line, the
  count \<^verbatim>\<open>nl - colon - 2\<close> wraps around and \<^verbatim>\<open>substr\<close> takes the rest of the text.
\<close>

definition header_line :: "string \<Rightarrow> nat \<Rightarrow> nat \<Rightarrow> (string \<rightharpoonup> string) \<Rightarrow> (string \<rightharpoonup> string)" where
  "header_line mess nl2 nl h =
     (case str_find mess '': '' nl2 of
        None \<Rightarrow> h
      | Some colon \<Rightarrow>
          emplace (substr_to mess nl2 (Some colon))
            (if colon + 2 \<le> nl then substr_to mess (colon + 2) (Some nl) else drop (colon + 2) mess) h)"

lemma find_sub_bounds: "find_sub pat s i = Some j \<Longrightarrow> i \<le> j \<and> j + length pat \<le> i + length s"
proof (induction s arbitrary: i)
  case Nil
  then show ?case by (auto split: if_splits)
next
  case (Cons c cs)
  show ?case
  proof (cases "take (length pat) (c # cs) = pat")
    case True
    then have "length (take (length pat) (c # cs)) = length pat" by simp
    then have "length pat \<le> length (c # cs)" by (metis length_take min.cobounded1)
    with True Cons.prems show ?thesis by simp
  next
    case False
    with Cons.prems have "find_sub pat cs (Suc i) = Some j" by simp
    from Cons.IH[OF this] show ?thesis by simp
  qed
qed

lemma str_find_bounds: "str_find s pat pos = Some j \<Longrightarrow> pos \<le> j \<and> j + length pat \<le> length s"
  by (auto simp: str_find_def split: if_splits dest!: find_sub_bounds)

text \<open>The rounds after the first, up to the last line end.\<close>

function header_loop :: "string \<Rightarrow> nat \<Rightarrow> nat \<Rightarrow> (string \<rightharpoonup> string) \<Rightarrow> (string \<rightharpoonup> string)" where
  "header_loop mess nl2 nl h =
     (case str_find mess CRLF (nl + 2) of
        None \<Rightarrow> header_line mess nl2 nl h
      | Some nl' \<Rightarrow> header_loop mess (nl + 2) nl' (header_line mess nl2 nl h))"
  by pat_completeness auto
termination
  by (relation "measure (\<lambda>(mess, nl2, nl, h). length mess - nl)")
     (auto dest!: str_find_bounds simp: CRLF_def)

declare header_loop.simps [simp del]

text \<open>
  The whole loop. Without any line end in the text, \<^verbatim>\<open>nl\<close> is \<^verbatim>\<open>npos\<close> in the first
  round and \<^verbatim>\<open>nl2 = nl + 2\<close> wraps around to 1.
\<close>

definition parse_response :: "string \<Rightarrow> hs_error + nat \<times> (string \<rightharpoonup> string)" where
  "parse_response mess =
     (let nl = str_find mess CRLF 0 in
      case parse_status_line mess nl of
        Inl e \<Rightarrow> Inl e
      | Inr status \<Rightarrow>
          (let nl2 = (case nl of None \<Rightarrow> 1 | Some n \<Rightarrow> n + 2) in
           case str_find mess CRLF nl2 of
             None \<Rightarrow> Inr (status, Map.empty)
           | Some nl' \<Rightarrow> Inr (status, header_loop mess nl2 nl' Map.empty)))"

text \<open>
  What \<^verbatim>\<open>send_handshake\<close> does with one response. \<open>received\<close> is the result of
  \<^verbatim>\<open>recv_http\<close>, \<open>None\<close> when the peer closed (\<^verbatim>\<open>open\<close> is false then). \<open>Again\<close>
  is the round of authentication: the answer to the challenge (\<^verbatim>\<open>send_auth_response\<close>,
  GSSAPI or SSPI) is outside this model, and the loop goes on with the next response.
\<close>

datatype hs_result = Again | Upgraded

definition handshake_response :: "string \<Rightarrow> string option \<Rightarrow> hs_error + hs_result" where
  "handshake_response key received =
     (case received of
        None \<Rightarrow> Inl Socket_closed
      | Some mess \<Rightarrow>
          (case parse_response mess of
             Inl e \<Rightarrow> Inl e
           | Inr (status, headers) \<Rightarrow>
               if status = 401 \<and> headers ''WWW-Authenticate'' \<noteq> None then Inr Again
               else if status \<noteq> 101 then Inl (Bad_status status)
               else if headers ''Upgrade'' = None \<or> headers ''Connection'' = None \<or>
                       headers ''Sec-WebSocket-Accept'' = None \<or>
                       headers ''Upgrade'' \<noteq> Some ''websocket'' \<or>
                       headers ''Connection'' \<noteq> Some ''Upgrade''
                    then Inl Malformed_response
               else if headers ''Sec-WebSocket-Accept'' \<noteq> Some (accept_value key)
                    then Inl Invalid_accept
               else Inr Upgraded))"

text \<open>The status and the value of a header, as parsed.\<close>

definition header_value :: "string \<Rightarrow> string \<Rightarrow> string option" where
  "header_value mess name = (case parse_response mess of Inl e \<Rightarrow> None | Inr (status, headers) \<Rightarrow> headers name)"

definition status_of :: "string \<Rightarrow> nat option" where
  "status_of mess = (case parse_response mess of Inl e \<Rightarrow> None | Inr (status, headers) \<Rightarrow> Some status)"

subsection \<open>Responses written out\<close>

text \<open>
  A response as a server writes it: the status line, a line \<^verbatim>\<open>name: value\<close> for each
  header, and an empty line.
\<close>

definition header_text :: "string \<times> string \<Rightarrow> string" where
  "header_text kv = fst kv @ '': '' @ snd kv @ CRLF"

definition response_text :: "string \<Rightarrow> (string \<times> string) list \<Rightarrow> string" where
  "response_text status_line hs = status_line @ CRLF @ concat (map header_text hs) @ CRLF"

text \<open>The length of the first header line, without its line end.\<close>

fun first_len :: "(string \<times> string) list \<Rightarrow> nat" where
  "first_len [] = 0"
| "first_len (kv # hs) = length (fst kv) + 2 + length (snd kv)"

text \<open>
  The example of RFC 6455, section 1.3; the same response with another accept value;
  a response with the header \<^verbatim>\<open>Upgrade\<close> twice.
\<close>

definition rfc_key :: string where
  "rfc_key = ''dGhlIHNhbXBsZSBub25jZQ==''"

definition bad_response :: string where
  "bad_response = ''HTTP/1.1 101 Switching Protocols'' @ CRLF @
     ''Upgrade: websocket'' @ CRLF @ ''Connection: Upgrade'' @ CRLF @
     ''Sec-WebSocket-Accept: s3pPLMBiTxaQ9kYGzzhZRbK+xOO='' @ CRLF @ CRLF"

definition dup_response :: string where
  "dup_response = response_text ''HTTP/1.1 101 Switching Protocols''
     [(''Upgrade'', ''websocket''), (''Upgrade'', ''h2c''), (''Connection'', ''Upgrade''),
      (''Sec-WebSocket-Accept'', ''s3pPLMBiTxaQ9kYGzzhZRbK+xOo='')]"

definition rfc_response :: string where
  "rfc_response = ''HTTP/1.1 101 Switching Protocols'' @ CRLF @
     ''Upgrade: websocket'' @ CRLF @ ''Connection: Upgrade'' @ CRLF @
     ''Sec-WebSocket-Accept: s3pPLMBiTxaQ9kYGzzhZRbK+xOo='' @ CRLF @ CRLF"

section \<open>Properties of the frame codec\<close>

subsection \<open>Bytes of a 64-bit length\<close>

lemma masks64:
  "(0xff :: 64 word) = mask 8"
  "(0xff00 :: 64 word) = push_bit 8 (mask 8)"
  "(0xff0000 :: 64 word) = push_bit 16 (mask 8)"
  "(0xff000000 :: 64 word) = push_bit 24 (mask 8)"
  "(0xff00000000 :: 64 word) = push_bit 32 (mask 8)"
  "(0xff0000000000 :: 64 word) = push_bit 40 (mask 8)"
  "(0xff000000000000 :: 64 word) = push_bit 48 (mask 8)"
  "(0xff00000000000000 :: 64 word) = push_bit 56 (mask 8)"
  by (simp_all add: mask_eq_exp_minus_1 push_bit_eq_mult)

lemma byte_at: "ucast (drop_bit k (len AND push_bit k (mask 8))) = (ucast (drop_bit k (len :: 64 word)) :: byte)"
  by (rule bit_word_eqI) (auto simp: bit_simps dest: bit_imp_le_length)

lemma byte_at0: "ucast (len AND mask 8) = (ucast (len :: 64 word) :: byte)"
  by (rule bit_word_eqI) (auto simp: bit_simps)

lemma byte_step:
  "push_bit 8 (drop_bit (k + 8) w) OR ucast (ucast (drop_bit k w) :: byte) = drop_bit k (w :: 64 word)"
proof (rule bit_word_eqI)
  fix n assume n: "n < LENGTH(64)"
  show "bit (push_bit 8 (drop_bit (k + 8) w) OR ucast (ucast (drop_bit k w) :: byte)) n = bit (drop_bit k w) n"
  proof (cases "n < 8")
    case True
    then show ?thesis using n by (simp add: bit_simps)
  next
    case False
    then have "k + 8 + (n - 8) = k + n" by simp
    with False show ?thesis using n by (simp add: bit_simps)
  qed
qed

lemma byte_top: "ucast (ucast (drop_bit 56 w) :: byte) = drop_bit 56 (w :: 64 word)"
  by (rule bit_word_eqI) (auto simp: bit_simps dest: bit_imp_le_length)

lemma be8_decode:
  "foldl (\<lambda>l b. push_bit 8 l OR ucast b) 0
     [ucast (drop_bit 56 len) :: byte, ucast (drop_bit 48 len), ucast (drop_bit 40 len), ucast (drop_bit 32 len),
      ucast (drop_bit 24 len), ucast (drop_bit 16 len), ucast (drop_bit 8 len), ucast len] = (len :: 64 word)"
  using byte_step[of 48 len] byte_step[of 40 len] byte_step[of 32 len] byte_step[of 24 len]
    byte_step[of 16 len] byte_step[of 8 len] byte_step[of 0 len]
  by (simp add: byte_top)

lemma be2_decode:
  assumes "len < (0x10000 :: 64 word)"
  shows "push_bit 8 (ucast (ucast (drop_bit 8 len) :: byte)) OR ucast (ucast len :: byte) = len"
proof -
  have "len < 2 ^ 16" using assms by simp
  then have "take_bit 16 len = len" by (simp add: less_mask_eq take_bit_eq_mask)
  then have *: "bit len n \<Longrightarrow> n < 16" for n
    by (metis bit_take_bit_iff)
  have "ucast (ucast (drop_bit 8 len) :: byte) = drop_bit 8 len"
    by (rule bit_word_eqI) (auto simp: bit_simps dest: *)
  then show ?thesis using byte_step[of 0 len] by simp
qed

lemma len7_decode:
  assumes "len \<le> (125 :: 64 word)"
  shows "ucast ((0x80 OR ucast len :: byte) AND 0x7f) = len"
proof -
  have "len < 2 ^ 7" using assms by (simp add: word_le_nat_alt word_less_nat_alt)
  then have "take_bit 7 len = len" by (simp add: less_mask_eq take_bit_eq_mask)
  then have *: "bit len n \<Longrightarrow> n < 7" for n
    by (metis bit_take_bit_iff)
  have "(0x80 OR ucast len :: byte) AND 0x7f = ucast len AND mask 7"
    by (simp add: bit.conj_disj_distrib2 mask_eq_exp_minus_1)
  moreover have "ucast (ucast len AND mask 7 :: byte) = len"
    by (rule bit_word_eqI) (auto simp: bit_simps dest: *)
  ultimately show ?thesis by simp
qed

lemma hdr_bits:
  "((0x80 OR x :: byte) AND 0x80) \<noteq> 0"
  "(0x80 OR (opc AND 0xf) :: byte) AND 0xf = opc AND 0xf"
  "(0xfe :: byte) AND 0x7f = 0x7e" "(0xff :: byte) AND 0x7f = 0x7f"
  "((0xfe :: byte) AND 0x80) \<noteq> 0" "((0xff :: byte) AND 0x80) \<noteq> 0"
proof -
  have "(0x80 OR x :: byte) AND 0x80 = 0x80 OR (x AND 0x80)"
    by (simp add: bit.conj_disj_distrib2)
  moreover have "0x80 OR y \<noteq> 0" for y :: byte
    by (simp add: or_eq_0_iff)
  ultimately show "((0x80 OR x :: byte) AND 0x80) \<noteq> 0" by simp
  show "(0x80 OR (opc AND 0xf) :: byte) AND 0xf = opc AND 0xf"
    by (simp add: bit.conj_disj_distrib2 and.assoc)
qed simp_all

subsection \<open>Bytes that come in pieces\<close>

text \<open>
  The socket delivers a sequence of bytes in pieces of any size, none of them empty
  (an empty read is the end of the stream). A read of \<open>n\<close> bytes takes the first \<open>n\<close>
  of them, over as many pieces as it needs, and leaves the rest; with fewer than \<open>n\<close>
  bytes it takes them all and waits.
\<close>

lemma recv_loop_filled:
  assumes "[] \<notin> set chs" "concat chs = bs @ after" "length bs = n" "0 < n"
  shows "\<exists>chs'. recv_loop n acc (map Data chs @ es) = (Filled (acc @ bs), map Data chs' @ es) \<and>
           [] \<notin> set chs' \<and> concat chs' = after"
  using assms
proof (induction chs arbitrary: n acc bs)
  case Nil
  then show ?case by simp
next
  case (Cons ch chs)
  have ne: "ch \<noteq> []" "[] \<notin> set chs" using Cons.prems(1) by auto
  show ?case
  proof (cases "n \<le> length ch")
    case True
    have e: "ch @ concat chs = bs @ after" using Cons.prems(2) by simp
    have bs: "bs = take n ch" using e True Cons.prems(3)
      by (metis append_eq_conv_conj take_append take_all_iff)
    have after: "after = drop n ch @ concat chs" using e True Cons.prems(3)
      by (metis append_eq_conv_conj drop_append diff_is_0_eq drop_0)
    show ?thesis
    proof (cases "n < length ch")
      case True
      have "recv_loop n acc (map Data (ch # chs) @ es)
              = (Filled (acc @ bs), map Data (drop n ch # chs) @ es)"
        using True ne bs by simp
      moreover have "[] \<notin> set (drop n ch # chs)" using True ne by simp
      moreover have "concat (drop n ch # chs) = after" using after by simp
      ultimately show ?thesis by blast
    next
      case False
      with \<open>n \<le> length ch\<close> have n: "n = length ch" by simp
      have "recv_loop n acc (map Data (ch # chs) @ es) = (Filled (acc @ bs), map Data chs @ es)"
        using n ne bs by simp
      moreover have "concat chs = after" using after n by simp
      ultimately show ?thesis using ne by blast
    qed
  next
    case False
    then have lt: "length ch < n" by simp
    let ?bs' = "drop (length ch) bs"
    have e: "ch @ concat chs = bs @ after" using Cons.prems(2) by simp
    have ch: "ch = take (length ch) bs" using e lt Cons.prems(3)
      by (metis append_eq_conv_conj less_imp_le_nat take_append diff_is_0_eq take_0 append_Nil2)
    have c: "concat chs = ?bs' @ after" using e lt Cons.prems(3)
      by (metis append_eq_conv_conj drop_append less_imp_le_nat diff_is_0_eq drop_0)
    have l: "length ?bs' = n - length ch" using Cons.prems(3) by simp
    have p: "0 < n - length ch" using lt by simp
    from Cons.IH[OF ne(2) c l p, of "acc @ ch"] obtain chs' where
      r: "recv_loop (n - length ch) (acc @ ch) (map Data chs @ es)
            = (Filled ((acc @ ch) @ ?bs'), map Data chs' @ es)"
      and w: "[] \<notin> set chs'" "concat chs' = after" by blast
    have "ch @ ?bs' = bs" using ch by (metis append_take_drop_id)
    then have "(acc @ ch) @ ?bs' = acc @ bs" by simp
    with r have "recv_loop n acc (map Data (ch # chs) @ es) = (Filled (acc @ bs), map Data chs' @ es)"
      using lt ne by simp
    with w show ?thesis by blast
  qed
qed

lemma recv_loop_starve:
  assumes "[] \<notin> set chs" "length (concat chs) < n"
  shows "recv_loop n acc (map Data chs) = (Starved, [])"
  using assms
proof (induction chs arbitrary: n acc)
  case Nil
  then show ?case by simp
next
  case (Cons ch chs)
  then show ?case by auto
qed

lemma recv_or_break_filled:
  assumes "is_open c" "rx c = map Data chs @ es" "[] \<notin> set chs" "concat chs = bs @ after"
    and "length bs = n" "0 < n"
  obtains chs' where "recv_or_break n k c = k bs (c\<lparr>rx := map Data chs' @ es\<rparr>)"
    and "[] \<notin> set chs'" and "concat chs' = after"
proof -
  from recv_loop_filled[OF assms(3,4,5,6), of "[]" es] obtain chs' where
    r: "recv_loop n [] (map Data chs @ es) = (Filled bs, map Data chs' @ es)"
    and w: "[] \<notin> set chs'" "concat chs' = after" by auto
  have "recv_or_break n k c = k bs (c\<lparr>rx := map Data chs' @ es\<rparr>)"
    using r assms(1,2,6) by (simp add: recv_or_break_def recv_def)
  with w that show ?thesis by blast
qed

lemma recv_or_break_starve:
  assumes "rx c = map Data chs" "[] \<notin> set chs" "length (concat chs) < n"
  shows "recv_or_break n k c = (Block In_recv, c\<lparr>rx := []\<rparr>)"
  using recv_loop_starve[OF assms(2,3), of "[]"] assms(1,3)
  by (simp add: recv_or_break_def recv_def)

lemma chunks_empty: "[] \<notin> set chs \<Longrightarrow> concat chs = [] \<Longrightarrow> chs = []"
  by (cases chs) auto

lemma unmask_zero: "unmask [0, 0, 0, 0] p = p"
proof -
  have "[0, 0, 0, 0 :: byte] ! (i mod 4) = 0" for i
  proof -
    have "i mod 4 < 4" by simp
    then consider "i mod 4 = 0" | "i mod 4 = 1" | "i mod 4 = 2" | "i mod 4 = 3" by linarith
    then show ?thesis by cases simp_all
  qed
  then show ?thesis by (simp add: unmask_def map_nth)
qed


lemma unat_len: "n < 2 ^ 32 \<Longrightarrow> unat (of_nat n :: 64 word) = n"
  by (simp add: unat_of_nat)

lemma u32_len: "n < 2 ^ 32 \<Longrightarrow> unat (ucast (of_nat n :: 64 word) :: 32 word) = n"
  by (simp add: unsigned_ucast_eq unat_len take_bit_eq_mod)

lemma len_nz: "n < 2 ^ 32 \<Longrightarrow> n \<noteq> 0 \<Longrightarrow> (of_nat n :: 64 word) \<noteq> 0"
  using unat_len[of n] by auto

lemma len_le: "n < 2 ^ 32 \<Longrightarrow> (of_nat n :: 64 word) \<le> 125 \<longleftrightarrow> n \<le> 125"
  by (simp add: word_le_nat_alt unat_len)

lemma len_lt: "n < 2 ^ 32 \<Longrightarrow> (of_nat n :: 64 word) < 0x10000 \<longleftrightarrow> n < 65536"
  by (simp add: word_less_nat_alt unat_len)

lemma send_header_bytes:
  "send_header opc len =
     (if len \<le> 125 then
        [0x80 OR (opc AND 0xf), 0x80 OR ucast len, 0, 0, 0, 0]
      else if len < 0x10000 then
        [0x80 OR (opc AND 0xf), 0xfe, ucast (drop_bit 8 len), ucast len, 0, 0, 0, 0]
      else
        [0x80 OR (opc AND 0xf), 0xff,
         ucast (drop_bit 56 len), ucast (drop_bit 48 len), ucast (drop_bit 40 len),
         ucast (drop_bit 32 len), ucast (drop_bit 24 len), ucast (drop_bit 16 len),
         ucast (drop_bit 8 len), ucast len, 0, 0, 0, 0])"
  unfolding send_header_def masks64 byte_at byte_at0 ..

lemma read_tail_chunks:
  assumes "is_open c" "rx c = map Data chs @ es" "[] \<notin> set chs"
    and "concat chs = [0, 0, 0, 0] @ p" "length p < 2 ^ 32"
  shows "read_mask True (\<lambda>mask_key. read_payload (of_nat (length p)) (k mask_key)) c
         = k [0, 0, 0, 0] p (c\<lparr>rx := es\<rparr>)"
proof -
  obtain chs1 where m: "recv_or_break 4 (\<lambda>mask_key. read_payload (of_nat (length p)) (k mask_key)) c
      = read_payload (of_nat (length p)) (k [0, 0, 0, 0]) (c\<lparr>rx := map Data chs1 @ es\<rparr>)"
    and w1: "[] \<notin> set chs1" "concat chs1 = p"
    using recv_or_break_filled[OF assms(1,2,3,4), of 4] by auto
  let ?c1 = "c\<lparr>rx := map Data chs1 @ es\<rparr>"
  have o1: "is_open ?c1" "rx ?c1 = map Data chs1 @ es" using assms(1) by simp_all
  show ?thesis
  proof (cases "p = []")
    case True
    with w1 have "chs1 = []" by (simp add: chunks_empty)
    with True m assms(1) show ?thesis by (simp add: read_mask_def read_payload_def)
  next
    case False
    have cp: "concat chs1 = p @ []" using w1 by simp
    obtain chs2 where r: "recv_or_break (length p) (k [0, 0, 0, 0]) ?c1
        = k [0, 0, 0, 0] p (?c1\<lparr>rx := map Data chs2 @ es\<rparr>)"
      and w2: "[] \<notin> set chs2" "concat chs2 = []"
      using recv_or_break_filled[OF o1 w1(1) cp, of "length p"] False by auto
    from w2 have "chs2 = []" by (simp add: chunks_empty)
    with r m False assms(5) show ?thesis
      by (simp add: read_mask_def read_payload_def u32_len len_nz)
  qed
qed

lemma read_frame_chunks:
  assumes "is_open c" and "rx c = map Data chs @ es" and "[] \<notin> set chs"
    and "concat chs = frame_bytes opc p"
    and "opc AND 0xf = opc" and "length p < 2 ^ 32"
  shows "read_frame c = (Ret (Some \<lparr>fin = True, opcode = opc, payload = p\<rparr>), c\<lparr>rx := es\<rparr>)"
proof -
  let ?len = "of_nat (length p) :: 64 word"
  define K3 where "K3 = (\<lambda>(header :: byte list) (mask_key :: byte list) body c.
             (Ret (Some \<lparr>fin = ((header ! 0 AND 0x80) \<noteq> 0),
                         opcode = header ! 0 AND 0xf,
                         payload = (if (header ! 1 AND 0x80) \<noteq> 0
                                    then unmask mask_key body else body)\<rparr>), c :: client_pimpl))"
  define K2 where "K2 = (\<lambda>header len.
         read_mask ((header ! 1 AND 0x80) \<noteq> 0) (\<lambda>mask_key. read_payload len (K3 header mask_key)))"
  define K1 where "K1 = (\<lambda>header. read_extlen (ucast (header ! 1 AND 0x7f)) (K2 header))"
  have rf: "read_frame = recv_or_break 2 K1"
    by (simp add: read_frame_def K1_def K2_def K3_def)
  have opc: "(0x80 OR opc) AND 0xf = opc"
    using hdr_bits(2)[of opc] assms(5) by simp
  have tail: "K2 [0x80 OR opc, b1] ?len c' = (Ret (Some \<lparr>fin = True, opcode = opc, payload = p\<rparr>), c\<lparr>rx := es\<rparr>)"
    if "c' = c\<lparr>rx := map Data chs' @ es\<rparr>" "[] \<notin> set chs'" "concat chs' = [0, 0, 0, 0] @ p"
      "(b1 AND 0x80) \<noteq> 0" for b1 c' chs'
  proof -
    have o: "is_open c'" "rx c' = map Data chs' @ es" using that(1) assms(1) by simp_all
    have "c'\<lparr>rx := es\<rparr> = c\<lparr>rx := es\<rparr>" using that(1) by simp
    with read_tail_chunks[OF o that(2,3) assms(6), of "K3 [0x80 OR opc, b1]"] that(4) opc
    show ?thesis by (simp add: K2_def K3_def hdr_bits unmask_zero)
  qed
  consider "length p \<le> 125" | "125 < length p" "length p < 65536" | "65536 \<le> length p"
    by linarith
  then show ?thesis
  proof cases
    case 1
    then have le: "?len \<le> 125" using assms(6) by (simp add: len_le)
    then have ne: "?len \<noteq> 126" "?len \<noteq> 127" by auto
    have cc: "concat chs = [0x80 OR opc, 0x80 OR ucast ?len] @ ([0, 0, 0, 0] @ p)"
      using assms(4,5) le by (simp add: frame_bytes_def send_header_bytes)
    obtain chs1 where h: "recv_or_break 2 K1 c = K1 [0x80 OR opc, 0x80 OR ucast ?len] (c\<lparr>rx := map Data chs1 @ es\<rparr>)"
      and w1: "[] \<notin> set chs1" "concat chs1 = [0, 0, 0, 0] @ p"
      using recv_or_break_filled[OF assms(1,2,3) cc, where n = 2 and k = K1] by auto
    have "K1 [0x80 OR opc, 0x80 OR ucast ?len] (c\<lparr>rx := map Data chs1 @ es\<rparr>)
          = K2 [0x80 OR opc, 0x80 OR ucast ?len] ?len (c\<lparr>rx := map Data chs1 @ es\<rparr>)"
      using le ne by (simp add: K1_def read_extlen_def len7_decode)
    with h tail[OF refl w1, of "0x80 OR ucast ?len"] show ?thesis
      by (simp add: rf hdr_bits)
  next
    case 2
    then have le: "\<not> ?len \<le> 125" "?len < 0x10000" using assms(6) by (simp_all add: len_le len_lt)
    let ?ext = "[ucast (drop_bit 8 ?len), ucast ?len] :: byte list"
    have cc: "concat chs = [0x80 OR opc, 0xfe] @ (?ext @ [0, 0, 0, 0] @ p)"
      using assms(4,5) le by (simp add: frame_bytes_def send_header_bytes)
    obtain chs1 where h: "recv_or_break 2 K1 c = K1 [0x80 OR opc, 0xfe] (c\<lparr>rx := map Data chs1 @ es\<rparr>)"
      and w1: "[] \<notin> set chs1" "concat chs1 = ?ext @ [0, 0, 0, 0] @ p"
      using recv_or_break_filled[OF assms(1,2,3) cc, where n = 2 and k = K1] by auto
    let ?c1 = "c\<lparr>rx := map Data chs1 @ es\<rparr>"
    let ?k = "\<lambda>extlen. K2 [0x80 OR opc, 0xfe] (push_bit 8 (ucast (extlen ! 0)) OR ucast (extlen ! 1))"
    have o1: "is_open ?c1" "rx ?c1 = map Data chs1 @ es" using assms(1) by simp_all
    obtain chs2 where h2: "recv_or_break 2 ?k ?c1 = ?k ?ext (?c1\<lparr>rx := map Data chs2 @ es\<rparr>)"
      and w2: "[] \<notin> set chs2" "concat chs2 = [0, 0, 0, 0] @ p"
      using recv_or_break_filled[OF o1 w1, where n = 2 and k = ?k] by auto
    have e1: "K1 [0x80 OR opc, 0xfe] ?c1 = recv_or_break 2 ?k ?c1"
      by (simp add: K1_def read_extlen_def hdr_bits)
    have e2: "?k ?ext (?c1\<lparr>rx := map Data chs2 @ es\<rparr>) = K2 [0x80 OR opc, 0xfe] ?len (c\<lparr>rx := map Data chs2 @ es\<rparr>)"
      using le by (simp add: be2_decode)
    from tail[OF refl w2, of "0xfe"] h h2 e1 e2 show ?thesis
      by (simp add: rf hdr_bits)
  next
    case 3
    then have le: "\<not> ?len \<le> 125" "\<not> ?len < 0x10000" using assms(6) by (simp_all add: len_le len_lt)
    let ?ext = "[ucast (drop_bit 56 ?len), ucast (drop_bit 48 ?len), ucast (drop_bit 40 ?len),
         ucast (drop_bit 32 ?len), ucast (drop_bit 24 ?len), ucast (drop_bit 16 ?len),
         ucast (drop_bit 8 ?len), ucast ?len] :: byte list"
    have cc: "concat chs = [0x80 OR opc, 0xff] @ (?ext @ [0, 0, 0, 0] @ p)"
      using assms(4,5) le by (simp add: frame_bytes_def send_header_bytes)
    obtain chs1 where h: "recv_or_break 2 K1 c = K1 [0x80 OR opc, 0xff] (c\<lparr>rx := map Data chs1 @ es\<rparr>)"
      and w1: "[] \<notin> set chs1" "concat chs1 = ?ext @ [0, 0, 0, 0] @ p"
      using recv_or_break_filled[OF assms(1,2,3) cc, where n = 2 and k = K1] by auto
    let ?c1 = "c\<lparr>rx := map Data chs1 @ es\<rparr>"
    let ?k = "\<lambda>extlen. K2 [0x80 OR opc, 0xff] (foldl (\<lambda>l b. push_bit 8 l OR ucast b) 0 extlen)"
    have o1: "is_open ?c1" "rx ?c1 = map Data chs1 @ es" using assms(1) by simp_all
    obtain chs2 where h2: "recv_or_break 8 ?k ?c1 = ?k ?ext (?c1\<lparr>rx := map Data chs2 @ es\<rparr>)"
      and w2: "[] \<notin> set chs2" "concat chs2 = [0, 0, 0, 0] @ p"
      using recv_or_break_filled[OF o1 w1, where n = 8 and k = ?k] by auto
    have e1: "K1 [0x80 OR opc, 0xff] ?c1 = recv_or_break 8 ?k ?c1"
      by (simp add: K1_def read_extlen_def hdr_bits)
    have e2: "?k ?ext (?c1\<lparr>rx := map Data chs2 @ es\<rparr>) = K2 [0x80 OR opc, 0xff] ?len (c\<lparr>rx := map Data chs2 @ es\<rparr>)"
      using be8_decode[of ?len] by simp
    from tail[OF refl w2, of "0xff"] h h2 e1 e2 show ?thesis
      by (simp add: rf hdr_bits)
  qed
qed

lemma send_raw_written:
  "send_raw s c = (Ret (), c') \<Longrightarrow> trace c' = trace c @ [Wrote s]"
  by (auto simp: send_raw_def split: list.splits tx_result.splits if_splits)

lemma send_written:
  assumes "send p opc c = (Ret (), c')"
  shows "trace c' = trace c @ [Wrote (send_header opc (of_nat (length p))), Wrote p]"
proof -
  obtain r1 c1 where s1: "send_raw (send_header opc (of_nat (length p))) c = (r1, c1)"
    by (cases "send_raw (send_header opc (of_nat (length p))) c")
  with assms have r1: "r1 = Ret ()" and s2: "send_raw p c1 = (Ret (), c')"
    by (cases r1; simp add: send_def)+
  from send_raw_written[OF s1[unfolded r1]] send_raw_written[OF s2] show ?thesis by simp
qed


lemma be_value_snoc: "be_value (bs @ [b]) = 256 * be_value bs + unat b"
  by (simp add: be_value_def)

lemma unat_byte: "unat (ucast (drop_bit k len) :: byte) = unat (len :: 64 word) div 2 ^ k mod 256"
proof -
  have "unat (ucast (drop_bit k len) :: byte) = take_bit 8 (drop_bit k (unat len))"
    by (simp add: unsigned_ucast_eq unat_drop_bit_eq)
  then show ?thesis by (simp add: take_bit_eq_mod drop_bit_eq_div)
qed

lemma div_step: "256 * (n div 2 ^ (k + 8)) + n div 2 ^ k mod 256 = (n :: nat) div 2 ^ k"
proof -
  have "n div 2 ^ (k + 8) = n div 2 ^ k div 256"
    by (simp add: power_add div_mult2_eq)
  then show ?thesis by simp
qed

lemma be_value_step:
  assumes "be_value bs = unat (len :: 64 word) div 2 ^ (k + 8)"
  shows "be_value (bs @ [ucast (drop_bit k len)]) = unat len div 2 ^ k"
  unfolding be_value_snoc assms unat_byte by (rule div_step)

lemma be_value_2:
  assumes "len < (0x10000 :: 64 word)"
  shows "be_value [ucast (drop_bit 8 len), ucast len] = unat len"
proof -
  have "unat len < 65536" using assms by (simp add: word_less_nat_alt)
  then have "unat len div 2 ^ 8 mod 256 = unat len div 2 ^ (0 + 8)" by simp
  then have "be_value [ucast (drop_bit 8 len)] = unat len div 2 ^ (0 + 8)"
    using be_value_snoc[of "[]" "ucast (drop_bit 8 len)"] by (simp add: unat_byte be_value_def)
  from be_value_step[OF this] show ?thesis by simp
qed

lemma be_value_8:
  "be_value [ucast (drop_bit 56 len), ucast (drop_bit 48 len), ucast (drop_bit 40 len),
             ucast (drop_bit 32 len), ucast (drop_bit 24 len), ucast (drop_bit 16 len),
             ucast (drop_bit 8 len), ucast len] = unat (len :: 64 word)"
proof -
  let ?n = "unat len"
  have "?n < 2 ^ 64" using unsigned_less[of len] by simp
  then have "?n div 2 ^ 56 mod 256 = ?n div 2 ^ (48 + 8)"
    by (simp add: less_mult_imp_div_less)
  then have "be_value [ucast (drop_bit 56 len)] = ?n div 2 ^ (48 + 8)"
    by (simp add: unat_byte be_value_def)
  from be_value_step[OF this]
  have "be_value [ucast (drop_bit 56 len), ucast (drop_bit 48 len)] = ?n div 2 ^ (40 + 8)" by simp
  from be_value_step[OF this]
  have "be_value [ucast (drop_bit 56 len), ucast (drop_bit 48 len), ucast (drop_bit 40 len)]
        = ?n div 2 ^ (32 + 8)" by simp
  from be_value_step[OF this]
  have "be_value [ucast (drop_bit 56 len), ucast (drop_bit 48 len), ucast (drop_bit 40 len),
          ucast (drop_bit 32 len)] = ?n div 2 ^ (24 + 8)" by simp
  from be_value_step[OF this]
  have "be_value [ucast (drop_bit 56 len), ucast (drop_bit 48 len), ucast (drop_bit 40 len),
          ucast (drop_bit 32 len), ucast (drop_bit 24 len)] = ?n div 2 ^ (16 + 8)" by simp
  from be_value_step[OF this]
  have "be_value [ucast (drop_bit 56 len), ucast (drop_bit 48 len), ucast (drop_bit 40 len),
          ucast (drop_bit 32 len), ucast (drop_bit 24 len), ucast (drop_bit 16 len)]
        = ?n div 2 ^ (8 + 8)" by simp
  from be_value_step[OF this]
  have "be_value [ucast (drop_bit 56 len), ucast (drop_bit 48 len), ucast (drop_bit 40 len),
          ucast (drop_bit 32 len), ucast (drop_bit 24 len), ucast (drop_bit 16 len),
          ucast (drop_bit 8 len)] = ?n div 2 ^ (0 + 8)" by simp
  from be_value_step[OF this] show ?thesis by simp
qed

lemma or_and_same: "(a OR b) AND a = (a :: byte)"
  by (rule bit_word_eqI) (auto simp: bit_simps)


text \<open>
  Claim C3, as amended. For every opcode and every 64-bit payload length, the header
  that \<^verbatim>\<open>client::send\<close> builds starts with the byte \<open>0x80 OR (opcode AND 0xf)\<close>.
  For a length of at most 125 the second byte has the mask bit \<open>0x80\<close> set and
  carries the length in its low 7 bits, and the header has 6 bytes; for a length from
  126 to 65535 the second byte is \<open>0xFE\<close>, two bytes follow that are the length in
  big-endian order, and the header has 8 bytes; for a length from 65536 the second byte
  is \<open>0xFF\<close>, eight bytes follow that are the length in big-endian order, and the
  header has 14 bytes. In each case the last four bytes of the header are the mask
  key, which is zero: the header is 6, 8 or 14 bytes long, not 2, 4 or 10.
\<close>

theorem send_header_layout:
  "(let h = send_header opc len in
      h ! 0 = 0x80 OR (opc AND 0xf) \<and>
      (if len \<le> 125 then
         length h = 6 \<and> h ! 1 AND 0x80 = 0x80 \<and> ucast (h ! 1 AND 0x7f) = len
       else if len < 0x10000 then
         length h = 8 \<and> h ! 1 = 0xfe \<and> be_value (take 2 (drop 2 h)) = unat len
       else
         length h = 14 \<and> h ! 1 = 0xff \<and> be_value (take 8 (drop 2 h)) = unat len) \<and>
      drop (length h - 4) h = [0, 0, 0, 0])"
  by (simp add: send_header_bytes Let_def len7_decode or_and_same be_value_2 be_value_8)


theorem send_header_layout_witness:
  "(let h = send_header text_op 300 in
      h ! 0 = 0x81 \<and> length h = 8 \<and> h ! 1 = 0xfe \<and>
      be_value (take 2 (drop 2 h)) = 300 \<and> drop 4 h = [0, 0, 0, 0])"
  using send_header_layout [of text_op 300] by (auto simp: text_op_def Let_def)

text \<open>
  Claim C3 as stated fails: the header for an empty text message is 6 bytes long.
\<close>

theorem send_header_length_counterexample:
  "length (send_header text_op 0) = 6 \<and> length (send_header text_op 0) \<notin> {2, 4, 10}"
  by (simp add: send_header_def)

text \<open>
  Claim C2. For a payload \<open>p\<close> whose length is one of 0, 1, 125, 126, 65535 and 65536
  and an opcode of the wire format (a 4-bit value): when \<^verbatim>\<open>client::send\<close> returns,
  and a socket delivers the bytes that this call has written (the header, then \<open>p\<close>),
  in pieces of any size, then the receive loop reads from them a frame with FIN set,
  the same opcode and the payload \<open>p\<close>, and consumes exactly these bytes. The mask
  key that \<^verbatim>\<open>client::send\<close> writes is zero, so unmasking leaves the payload as it
  is. (The lemma \<open>read_frame_chunks\<close> shows the same for every length below \<open>2 ^ 32\<close>.)
\<close>

theorem send_read_frame_roundtrip:
  assumes "length p \<in> {0, 1, 125, 126, 65535, 65536}"
    and "opc \<le> 0xf"
    and "send p opc c = (Ret (), c')"
    and "is_open d" and "rx d = map Data chs @ es" and "[] \<notin> set chs"
    and "concat chs = wire (drop (length (trace c)) (trace c'))"
  shows "read_frame d = (Ret (Some \<lparr>fin = True, opcode = opc, payload = p\<rparr>), d\<lparr>rx := es\<rparr>)"
proof -
  have "opc < 2 ^ 4" using assms(2) by (simp add: word_le_nat_alt word_less_nat_alt)
  then have "opc AND mask 4 = opc" by (rule less_mask_eq)
  then have o: "opc AND 0xf = opc" by (simp add: mask_eq_exp_minus_1)
  have l: "length p < 2 ^ 32" using assms(1) by auto
  have "concat chs = frame_bytes opc p"
    using assms(7) send_written[OF assms(3)] by (simp add: frame_bytes_def)
  with assms(4,5,6) show ?thesis using o l by (rule read_frame_chunks)
qed

theorem send_read_frame_roundtrip_witness:
  "send [0x2a] binary (refused_client\<lparr>tx := [Accepted 6, Accepted 1]\<rparr>)
     = (Ret (), refused_client\<lparr>tx := [], trace := [Wrote [0x82, 0x81, 0, 0, 0, 0], Wrote [0x2a]]\<rparr>) \<and>
   read_frame (partial_client []\<lparr>rx := [Data [0x82], Data [0x81, 0, 0], Data [0, 0, 0x2a], Eof]\<rparr>)
     = (Ret (Some \<lparr>fin = True, opcode = binary, payload = [0x2a]\<rparr>), partial_client []\<lparr>rx := [Eof]\<rparr>)"
proof -
  have s: "send [0x2a] binary (refused_client\<lparr>tx := [Accepted 6, Accepted 1]\<rparr>)
     = (Ret (), refused_client\<lparr>tx := [], trace := [Wrote [0x82, 0x81, 0, 0, 0, 0], Wrote [0x2a]]\<rparr>)"
    by (simp add: refused_client_def send_def send_raw_def send_header_def binary_def)
  have "read_frame (partial_client []\<lparr>rx := [Data [0x82], Data [0x81, 0, 0], Data [0, 0, 0x2a], Eof]\<rparr>)
     = (Ret (Some \<lparr>fin = True, opcode = binary, payload = [0x2a]\<rparr>),
        partial_client []\<lparr>rx := [Data [0x82], Data [0x81, 0, 0], Data [0, 0, 0x2a], Eof]\<rparr>\<lparr>rx := [Eof]\<rparr>)"
    using send_read_frame_roundtrip [OF _ _ s, where d = "partial_client []\<lparr>rx := [Data [0x82], Data [0x81, 0, 0], Data [0, 0, 0x2a], Eof]\<rparr>"
        and chs = "[[0x82], [0x81, 0, 0], [0, 0, 0x2a]]" and es = "[Eof]"]
    by (simp add: binary_def refused_client_def partial_client_def)
  with s show ?thesis by simp
qed

section \<open>Properties of the receive loop\<close>

subsection \<open>Evaluating the loop on a given connection\<close>

lemmas loop_eval = recv_thread.simps read_frame_def recv_or_break_def recv_def read_extlen_def
  read_mask_def read_payload_def handle_frame_def parse_ws_message_def unmask_def
  send_def send_raw_def send_header_def receive_task_def client_pimpl_dtor_def
  continuation_def text_op_def binary_def close_def ping_def pong_def
  EWOULDBLOCK_def ECONNRESET_def

subsection \<open>Reading a frame changes nothing but the socket's input\<close>

lemma keeps_refl: "keeps c c"
  by (simp add: keeps_def)

lemma keeps_trans: "keeps a b \<Longrightarrow> keeps b c \<Longrightarrow> keeps a c"
  by (simp add: keeps_def)

lemma recv_keeps: "recv n c = (r, c') \<Longrightarrow> keeps c c'"
  by (auto simp: recv_def keeps_def split: prod.splits rd.splits if_splits)

lemma recv_or_break_keeps:
  assumes "recv_or_break n k c = (r, c2)"
    and "\<And>s c1. k s c1 = (r, c2) \<Longrightarrow> keeps c1 c2"
  shows "keeps c c2"
proof (cases "recv n c")
  case (Pair r1 c1)
  then have k1: "keeps c c1" by (rule recv_keeps)
  show ?thesis
  proof (cases r1)
    case (Ret s)
    show ?thesis
    proof (cases "is_open c1")
      case True
      with Pair Ret assms(1) have "k s c1 = (r, c2)" by (simp add: recv_or_break_def)
      then have "keeps c1 c2" by (rule assms(2))
      with k1 show ?thesis by (rule keeps_trans)
    next
      case False
      with Pair Ret assms(1) have "c2 = c1" by (simp add: recv_or_break_def)
      with k1 show ?thesis by simp
    qed
  next
    case (Throw e)
    with Pair assms(1) have "c2 = c1" by (simp add: recv_or_break_def)
    with k1 show ?thesis by simp
  next
    case (Block b)
    with Pair assms(1) have "c2 = c1" by (simp add: recv_or_break_def)
    with k1 show ?thesis by simp
  qed
qed

lemma read_extlen_keeps:
  assumes "read_extlen l k c = (r, c2)"
    and "\<And>s c1. k s c1 = (r, c2) \<Longrightarrow> keeps c1 c2"
  shows "keeps c c2"
proof -
  consider "l = 126" | "l \<noteq> 126" "l = 127" | "l \<noteq> 126" "l \<noteq> 127" by blast
  then show ?thesis
  proof cases
    case 1
    with assms(1) have "recv_or_break 2
        (\<lambda>extlen. k (push_bit 8 (ucast (extlen ! 0)) OR ucast (extlen ! 1))) c = (r, c2)"
      by (simp add: read_extlen_def)
    then show ?thesis by (rule recv_or_break_keeps) (rule assms(2))
  next
    case 2
    with assms(1) have "recv_or_break 8
        (\<lambda>extlen. k (foldl (\<lambda>l b. push_bit 8 l OR ucast b) 0 extlen)) c = (r, c2)"
      by (simp add: read_extlen_def)
    then show ?thesis by (rule recv_or_break_keeps) (rule assms(2))
  next
    case 3
    with assms(1) have "k l c = (r, c2)" by (simp add: read_extlen_def)
    then show ?thesis by (rule assms(2))
  qed
qed

lemma read_mask_keeps:
  assumes "read_mask m k c = (r, c2)"
    and "\<And>s c1. k s c1 = (r, c2) \<Longrightarrow> keeps c1 c2"
  shows "keeps c c2"
proof (cases m)
  case True
  with assms(1) have "recv_or_break 4 k c = (r, c2)" by (simp add: read_mask_def)
  then show ?thesis by (rule recv_or_break_keeps) (rule assms(2))
next
  case False
  with assms(1) have "k [] c = (r, c2)" by (simp add: read_mask_def)
  then show ?thesis by (rule assms(2))
qed

lemma read_payload_keeps:
  assumes "read_payload l k c = (r, c2)"
    and "\<And>s c1. k s c1 = (r, c2) \<Longrightarrow> keeps c1 c2"
  shows "keeps c c2"
proof (cases "l = 0")
  case True
  show ?thesis
  proof (cases "is_open c")
    case True
    with \<open>l = 0\<close> assms(1) have "k [] c = (r, c2)" by (simp add: read_payload_def)
    then show ?thesis by (rule assms(2))
  next
    case False
    with \<open>l = 0\<close> assms(1) have "c2 = c" by (simp add: read_payload_def)
    then show ?thesis by (simp add: keeps_refl)
  qed
next
  case False
  with assms(1) have "recv_or_break (unat (ucast l :: 32 word)) k c = (r, c2)"
    by (simp add: read_payload_def)
  then show ?thesis by (rule recv_or_break_keeps) (rule assms(2))
qed

lemma read_frame_keeps: "read_frame c = (r, c') \<Longrightarrow> keeps c c'"
  unfolding read_frame_def
  apply (erule recv_or_break_keeps)
  apply (erule read_extlen_keeps)
  apply (erule read_mask_keeps)
  apply (erule read_payload_keeps)
  apply (auto simp: keeps_refl)
  done

lemma recv_or_break_open:
  assumes "recv_or_break n k c = (Ret (Some f), c2)"
    and "\<And>s c1. k s c1 = (Ret (Some f), c2) \<Longrightarrow> is_open c1 \<Longrightarrow> is_open c2"
  shows "is_open c2"
  using assms by (auto simp: recv_or_break_def split: prod.splits outcome.splits if_splits)

lemma read_frame_open: "read_frame c = (Ret (Some f), c') \<Longrightarrow> is_open c'"
  unfolding read_frame_def
  apply (erule recv_or_break_open)
  apply (auto simp: read_extlen_def read_mask_def read_payload_def split: if_splits
      elim!: recv_or_break_open)
  done

subsection \<open>What sending and dispatching change\<close>

lemma send_raw_fields:
  "send_raw s c = (r, c') \<Longrightarrow>
     last_opcode c' = last_opcode c \<and> payloadbuf c' = payloadbuf c \<and> is_open c' = is_open c \<and>
     has_msg_handler c' = has_msg_handler c \<and> has_disconn_handler c' = has_disconn_handler c \<and>
     rx c' = rx c \<and> (Message q opc \<in> set (trace c') \<longleftrightarrow> Message q opc \<in> set (trace c)) \<and>
     (Disconnect x \<in> set (trace c') \<longleftrightarrow> Disconnect x \<in> set (trace c))"
  by (auto simp: send_raw_def split: list.splits tx_result.splits if_splits)

lemma send_fields:
  assumes "send p opc' c = (r, c')"
  shows "last_opcode c' = last_opcode c \<and> payloadbuf c' = payloadbuf c \<and> is_open c' = is_open c \<and>
     has_msg_handler c' = has_msg_handler c \<and> has_disconn_handler c' = has_disconn_handler c \<and>
     rx c' = rx c \<and> (Message q opc \<in> set (trace c') \<longleftrightarrow> Message q opc \<in> set (trace c)) \<and>
     (Disconnect x \<in> set (trace c') \<longleftrightarrow> Disconnect x \<in> set (trace c))"
proof (cases "send_raw (send_header opc' (of_nat (length p))) c")
  case (Pair r1 c1)
  note f1 = send_raw_fields[OF Pair, of q opc x]
  show ?thesis
  proof (cases r1)
    case (Ret u)
    with Pair assms have "send_raw p c1 = (r, c')" by (simp add: send_def)
    from send_raw_fields[OF this, of q opc x] f1 show ?thesis by simp
  next
    case (Throw e)
    with Pair assms have "c' = c1" by (simp add: send_def)
    with f1 show ?thesis by simp
  next
    case (Block b)
    with Pair assms have "c' = c1" by (simp add: send_def)
    with f1 show ?thesis by simp
  qed
qed

lemma parse_ws_message_fields:
  assumes "parse_ws_message opc p c = (r, c')"
  shows "last_opcode c' = last_opcode c \<and> payloadbuf c' = payloadbuf c \<and>
     has_msg_handler c' = has_msg_handler c \<and> has_disconn_handler c' = has_disconn_handler c \<and>
     rx c' = rx c \<and> (is_open c' \<longrightarrow> is_open c) \<and>
     (Message q opc' \<in> set (trace c') \<longrightarrow> Message q opc' \<in> set (trace c) \<or> (opc' = opc \<and> q = p))"
proof (cases "opc = close")
  case True
  with assms show ?thesis by (auto simp: parse_ws_message_def)
next
  case False
  show ?thesis
  proof (cases "opc = ping")
    case True
    obtain r1 c1 where s: "send p pong c = (r1, c1)" by (cases "send p pong c")
    note f = send_fields[OF s, of q opc']
    from assms s True False f show ?thesis
      by (cases r1) (auto simp: parse_ws_message_def split: if_splits)
  next
    case False
    with assms \<open>opc \<noteq> close\<close> show ?thesis
      by (auto simp: parse_ws_message_def split: if_splits)
  qed
qed

lemma handle_frame_fields:
  assumes "handle_frame invalid f c = (r, c')"
  shows "has_msg_handler c' = has_msg_handler c \<and> has_disconn_handler c' = has_disconn_handler c \<and>
     rx c' = rx c \<and> (is_open c' \<longrightarrow> is_open c) \<and>
     (last_opcode c' = last_opcode c \<or> (\<not> fin f \<and> opcode f \<noteq> invalid \<and> last_opcode c' = opcode f)) \<and>
     (Message q opc \<in> set (trace c') \<longrightarrow>
        Message q opc \<in> set (trace c) \<or>
        (fin f \<and> opc = (if payloadbuf c = [] then opcode f else last_opcode c)))"
proof (cases "fin f")
  case False
  with assms show ?thesis by (auto simp: handle_frame_def)
next
  case True
  show ?thesis
  proof (cases "payloadbuf c = []")
    case True
    with \<open>fin f\<close> assms have "parse_ws_message (opcode f) (payload f) c = (r, c')"
      by (simp add: handle_frame_def)
    from parse_ws_message_fields[OF this, of q opc] True \<open>fin f\<close> show ?thesis by auto
  next
    case False
    obtain r1 c1 where p: "parse_ws_message (last_opcode c) (payloadbuf c @ payload f) c = (r1, c1)"
      by (cases "parse_ws_message (last_opcode c) (payloadbuf c @ payload f) c")
    note f = parse_ws_message_fields[OF p, of q opc]
    from assms p False \<open>fin f\<close> f show ?thesis
      by (cases r1) (auto simp: handle_frame_def)
  qed
qed

subsection \<open>The opcode of a dispatched message\<close>

lemma handle_frame_step:
  assumes "handle_frame invalid f c = (r, c')"
  shows "(Message q opc \<in> set (trace c') \<longrightarrow>
            Message q opc \<in> set (trace c) \<or>
            (fin f \<and> q = payloadbuf c @ payload f \<and>
             opc = (if payloadbuf c = [] then opcode f else last_opcode c))) \<and>
         (r = Ret () \<longrightarrow>
            last_opcode c' = (if \<not> fin f \<and> opcode f \<noteq> invalid then opcode f else last_opcode c) \<and>
            payloadbuf c' = (if fin f then [] else payloadbuf c @ payload f))"
proof (cases "fin f")
  case False
  with assms show ?thesis by (auto simp: handle_frame_def)
next
  case True
  show ?thesis
  proof (cases "payloadbuf c = []")
    case True
    with \<open>fin f\<close> assms have "parse_ws_message (opcode f) (payload f) c = (r, c')"
      by (simp add: handle_frame_def)
    from parse_ws_message_fields[OF this, of q opc] True \<open>fin f\<close> show ?thesis by auto
  next
    case False
    obtain r1 c1 where p: "parse_ws_message (last_opcode c) (payloadbuf c @ payload f) c = (r1, c1)"
      by (cases "parse_ws_message (last_opcode c) (payloadbuf c @ payload f) c")
    note f = parse_ws_message_fields[OF p, of q opc]
    from assms p False \<open>fin f\<close> f show ?thesis
      by (cases r1) (auto simp: handle_frame_def)
  qed
qed

lemma recv_thread_dispatch:
  assumes "recv_thread invalid c = (r, c')"
    and "Message q opc \<in> set (trace c')"
  shows "Message q opc \<in> set (trace c) \<or>
         (q, opc) \<in> set (spec_dispatch invalid (frames_read invalid c) (last_opcode c) (payloadbuf c))"
  using assms
proof (induction invalid c arbitrary: r c' rule: recv_thread.induct)
  case (1 invalid c)
  show ?case
  proof (cases "is_open c")
    case False
    with "1.prems" show ?thesis by (simp add: recv_thread.simps)
  next
    case True
    obtain r1 c1 where rf: "read_frame c = (r1, c1)" by (cases "read_frame c")
    note k = read_frame_keeps[OF rf]
    show ?thesis
    proof (cases "\<exists>f. r1 = Ret (Some f)")
      case False
      with True rf "1.prems"(1) have "c' = c1"
        by (subst (asm) recv_thread.simps) (auto split: outcome.splits option.splits)
      with k "1.prems"(2) show ?thesis by (simp add: keeps_def)
    next
      case True
      then obtain f where r1: "r1 = Ret (Some f)" by blast
      obtain r2 c2 where hf: "handle_frame invalid f c1 = (r2, c2)"
        by (cases "handle_frame invalid f c1")
      note h = handle_frame_step[OF hf, of q opc]
      have fr: "frames_read invalid c =
                  f # (case r2 of Ret u \<Rightarrow> frames_read invalid c2 | _ \<Rightarrow> [])"
        using \<open>is_open c\<close> rf r1 hf
        by (subst frames_read.simps) (simp split: outcome.splits)
      have k1: "trace c1 = trace c" "last_opcode c1 = last_opcode c" "payloadbuf c1 = payloadbuf c"
        using k by (simp_all add: keeps_def)
      show ?thesis
      proof (cases "\<exists>u. r2 = Ret u")
        case False
        with \<open>is_open c\<close> rf r1 hf "1.prems"(1) have "c' = c2"
          by (subst (asm) recv_thread.simps) (auto split: outcome.splits)
        with h k1 "1.prems"(2) fr show ?thesis by auto
      next
        case True
        then obtain u where r2: "r2 = Ret u" by blast
        with \<open>is_open c\<close> rf r1 hf "1.prems"(1) have rt: "recv_thread invalid c2 = (r, c')"
          by (subst (asm) recv_thread.simps) simp
        have nn: "\<not> \<not> is_open c" using \<open>is_open c\<close> by simp
        have ih: "Message q opc \<in> set (trace c2) \<or>
              (q, opc) \<in> set (spec_dispatch invalid (frames_read invalid c2) (last_opcode c2) (payloadbuf c2))"
          using "1.IH"[OF nn rf[symmetric] r1 refl hf[symmetric] r2 rt "1.prems"(2)] .
        have s: "last_opcode c2 = (if \<not> fin f \<and> opcode f \<noteq> invalid then opcode f else last_opcode c)"
          "payloadbuf c2 = (if fin f then [] else payloadbuf c @ payload f)"
          using h r2 k1 by simp_all
        have fr2: "frames_read invalid c = f # frames_read invalid c2" using fr r2 by simp
        show ?thesis
        proof (cases "fin f")
          case False
          with ih h s k1 show ?thesis unfolding fr2 by auto
        next
          case True
          with ih h s k1 show ?thesis unfolding fr2 by (cases "payloadbuf c = []") auto
        qed
      qed
    qed
  qed
qed

lemma spec_dispatch_continuation:
  assumes "pending \<noteq> continuation"
    and "(q, continuation) \<in> set (spec_dispatch continuation fs pending buf)"
  shows "\<exists>f \<in> set fs. fin f \<and> opcode f = continuation \<and> payload f = q"
  using assms
proof (induction fs arbitrary: pending buf)
  case Nil
  then show ?case by simp
next
  case (Cons f fs)
  show ?case
  proof (cases "fin f")
    case False
    with Cons.prems have "(q, continuation) \<in> set (spec_dispatch continuation fs
        (if opcode f \<noteq> continuation then opcode f else pending) (buf @ payload f))" by simp
    moreover have "(if opcode f \<noteq> continuation then opcode f else pending) \<noteq> continuation"
      using Cons.prems(1) by simp
    ultimately show ?thesis using Cons.IH by fastforce
  next
    case True
    show ?thesis
    proof (cases "buf = []")
      case True
      with \<open>fin f\<close> Cons.prems(2) have "(q = payload f \<and> opcode f = continuation) \<or>
          (q, continuation) \<in> set (spec_dispatch continuation fs pending [])" by auto
      then show ?thesis using Cons.IH[OF Cons.prems(1)] \<open>fin f\<close> by fastforce
    next
      case False
      with \<open>fin f\<close> Cons.prems have "(q, continuation) \<in> set (spec_dispatch continuation fs pending [])"
        by auto
      then show ?thesis using Cons.IH[OF Cons.prems(1)] by fastforce
    qed
  qed
qed

lemma handle_frame_pending:
  assumes "handle_frame continuation g d = (r, d')" and "last_opcode d \<noteq> continuation"
  shows "last_opcode d' \<noteq> continuation"
    and "payloadbuf d \<noteq> [] \<Longrightarrow> Message q continuation \<in> set (trace d') \<Longrightarrow>
         Message q continuation \<in> set (trace d)"
proof -
  show "last_opcode d' \<noteq> continuation"
    using handle_frame_fields[OF assms(1), of q continuation] assms(2) by auto
  show "Message q continuation \<in> set (trace d)"
    if "payloadbuf d \<noteq> []" "Message q continuation \<in> set (trace d')"
    using handle_frame_step[OF assms(1), of q continuation] that assms(2) by auto
qed

text \<open>
  When the opcode pending at the start is the continuation opcode, a message that
  begins with a frame without FIN and with the continuation opcode is dispatched as
  a continuation.
\<close>

lemma pending_continuation_start:
  "recv_thread continuation (partial_client []\<lparr>last_opcode := continuation,
       rx := [Data [0x00, 0x01, 0x61, 0x80, 0x01, 0x62], Eof]\<rparr>)
     = (Ret (), partial_client []\<lparr>is_open := False, last_opcode := continuation, rx := [],
                  trace := [Message [0x61, 0x62] continuation]\<rparr>)"
  by (simp add: partial_client_def loop_eval)

text \<open>
  Claim C4, as amended. For every run of the receive loop, a message that the run
  passes to the message handler is one that the reassembly rules yield for the frames
  that the loop has read, from the pending opcode and the buffer the run started
  with: a message completed by a frame with FIN while the buffer is not empty carries
  the pending opcode (the opcode of the latest frame without FIN whose opcode is not
  \<^verbatim>\<open>opcode::invalid\<close>, or the opcode that was pending at the start), never the
  opcode of the frame that completes it; a frame with FIN that arrives while the
  buffer is empty is passed with its own opcode. When \<^verbatim>\<open>opcode::invalid\<close> is the
  value of the continuation opcode and the pending opcode is not continuation, then
  it is not continuation after any frame either, and a frame that arrives while the
  buffer is not empty passes no message with the continuation opcode to the handler:
  over a run, the continuation opcode reaches the handler only as the own opcode of a
  frame with FIN that carries it, with that frame's payload. And a frame with FIN and
  the continuation opcode that arrives while the buffer is empty is passed to the
  handler with the continuation opcode, whatever \<^verbatim>\<open>opcode::invalid\<close> is.
\<close>

theorem dispatched_opcode_origin:
  "(recv_thread invalid c = (r, c') \<and> Message q opc \<in> set (trace c') \<and>
    Message q opc \<notin> set (trace c) \<longrightarrow>
      (q, opc) \<in> set (spec_dispatch invalid (frames_read invalid c) (last_opcode c) (payloadbuf c)) \<and>
      (invalid = continuation \<and> last_opcode c \<noteq> continuation \<and> opc = continuation \<longrightarrow>
         (\<exists>f \<in> set (frames_read invalid c). fin f \<and> opcode f = continuation \<and> payload f = q))) \<and>
   (handle_frame continuation g d = (r', d') \<and> last_opcode d \<noteq> continuation \<longrightarrow>
      last_opcode d' \<noteq> continuation \<and>
      (payloadbuf d \<noteq> [] \<and> Message q' continuation \<in> set (trace d') \<longrightarrow>
         Message q' continuation \<in> set (trace d))) \<and>
   (fin g \<and> opcode g = continuation \<and> payloadbuf d = [] \<and> has_msg_handler d \<longrightarrow>
      handle_frame invalid g d = (Ret (), d\<lparr>trace := trace d @ [Message (payload g) continuation]\<rparr>))"
proof (intro conjI impI)
  assume a: "recv_thread invalid c = (r, c') \<and> Message q opc \<in> set (trace c') \<and>
    Message q opc \<notin> set (trace c)"
  then show m: "(q, opc) \<in> set (spec_dispatch invalid (frames_read invalid c) (last_opcode c) (payloadbuf c))"
    using recv_thread_dispatch[of invalid c r c' q opc] by blast
  assume "invalid = continuation \<and> last_opcode c \<noteq> continuation \<and> opc = continuation"
  with m show "\<exists>f \<in> set (frames_read invalid c). fin f \<and> opcode f = continuation \<and> payload f = q"
    using spec_dispatch_continuation[of "last_opcode c" q "frames_read continuation c" "payloadbuf c"]
    by simp
next
  assume h: "handle_frame continuation g d = (r', d') \<and> last_opcode d \<noteq> continuation"
  then show "last_opcode d' \<noteq> continuation"
    using handle_frame_pending(1)[of g d r' d'] by blast
  assume "payloadbuf d \<noteq> [] \<and> Message q' continuation \<in> set (trace d')"
  with h show "Message q' continuation \<in> set (trace d)"
    using handle_frame_pending(2)[of g d r' d' q'] by blast
next
  assume "fin g \<and> opcode g = continuation \<and> payloadbuf d = [] \<and> has_msg_handler d"
  then show "handle_frame invalid g d = (Ret (), d\<lparr>trace := trace d @ [Message (payload g) continuation]\<rparr>)"
    by (simp add: handle_frame_def parse_ws_message_def continuation_def close_def ping_def)
qed

theorem dispatched_opcode_origin_witness:
  "(map of_char ''Hello World'', text_op)
     \<in> set (spec_dispatch continuation (frames_read continuation hello_client) binary []) \<and>
   spec_dispatch continuation (frames_read continuation hello_client) binary []
     = [(map of_char ''Hello World'', text_op)] \<and>
   (\<exists>f \<in> set (frames_read continuation orphan_client).
      fin f \<and> opcode f = continuation \<and> payload f = [0x78]) \<and>
   last_opcode (snd (handle_frame continuation \<lparr>fin = True, opcode = continuation, payload = [0x69]\<rparr>
       (hello_client\<lparr>last_opcode := text_op, payloadbuf := [0x48]\<rparr>))) \<noteq> continuation \<and>
   Message [0x48, 0x69] continuation \<notin> set (trace (snd (handle_frame continuation
       \<lparr>fin = True, opcode = continuation, payload = [0x69]\<rparr>
       (hello_client\<lparr>last_opcode := text_op, payloadbuf := [0x48]\<rparr>)))) \<and>
   handle_frame continuation \<lparr>fin = True, opcode = continuation, payload = [0x78]\<rparr> hello_client
     = (Ret (), hello_client\<lparr>trace := [Message [0x78] continuation]\<rparr>)"
proof -
  have r: "recv_thread continuation hello_client =
     (Ret (), hello_client\<lparr>is_open := False, last_opcode := text_op, rx := [],
        trace := [Message (map of_char ''Hello World'') text_op]\<rparr>)"
    by (simp add: hello_client_def loop_eval)
  have fr: "frames_read continuation hello_client =
    [\<lparr>fin = False, opcode = text_op, payload = map of_char ''Hel''\<rparr>,
     \<lparr>fin = False, opcode = continuation, payload = map of_char ''lo ''\<rparr>,
     \<lparr>fin = True, opcode = continuation, payload = map of_char ''World''\<rparr>]"
    by (simp add: hello_client_def frames_read.simps loop_eval)
  have a: "spec_dispatch continuation (frames_read continuation hello_client) binary []
     = [(map of_char ''Hello World'', text_op)]"
    unfolding fr by (simp add: text_op_def continuation_def)
  have m: "(map of_char ''Hello World'', text_op)
          \<in> set (spec_dispatch continuation (frames_read continuation hello_client) binary [])"
    using dispatched_opcode_origin [where invalid = continuation and c = hello_client and r = "Ret ()"
        and c' = "hello_client\<lparr>is_open := False, last_opcode := text_op, rx := [],
                     trace := [Message (map of_char ''Hello World'') text_op]\<rparr>"
        and q = "map of_char ''Hello World''" and opc = text_op] r
    by (simp add: hello_client_def)
  have o: "recv_thread continuation orphan_client =
     (Ret (), orphan_client\<lparr>is_open := False, rx := [], trace := [Message [0x78] continuation]\<rparr>)"
    by (simp add: orphan_client_def loop_eval)
  have b: "\<exists>f \<in> set (frames_read continuation orphan_client).
      fin f \<and> opcode f = continuation \<and> payload f = [0x78]"
    using dispatched_opcode_origin [where invalid = continuation and c = orphan_client and r = "Ret ()"
        and c' = "orphan_client\<lparr>is_open := False, rx := [], trace := [Message [0x78] continuation]\<rparr>"
        and q = "[0x78]" and opc = continuation] o
    by (simp add: orphan_client_def text_op_def continuation_def)
  let ?d = "hello_client\<lparr>last_opcode := text_op, payloadbuf := [0x48]\<rparr>"
  let ?g = "\<lparr>fin = True, opcode = continuation, payload = [0x69]\<rparr>"
  have p: "last_opcode (snd (handle_frame continuation ?g ?d)) \<noteq> continuation \<and>
           Message [0x48, 0x69] continuation \<notin> set (trace (snd (handle_frame continuation ?g ?d)))"
    using dispatched_opcode_origin [where g = ?g and d = ?d
        and r' = "fst (handle_frame continuation ?g ?d)" and d' = "snd (handle_frame continuation ?g ?d)"
        and q' = "[0x48, 0x69]"]
    by (auto simp: hello_client_def text_op_def continuation_def)
  have c: "handle_frame continuation \<lparr>fin = True, opcode = continuation, payload = [0x78]\<rparr> hello_client
     = (Ret (), hello_client\<lparr>trace := [Message [0x78] continuation]\<rparr>)"
    using dispatched_opcode_origin [where invalid = continuation and d = hello_client
        and g = "\<lparr>fin = True, opcode = continuation, payload = [0x78]\<rparr>"]
    by (simp add: hello_client_def)
  from m a b p c show ?thesis by simp
qed

text \<open>
  Claim C4 as stated fails: a single frame with FIN set and the continuation opcode
  is passed to the message handler as it is, whatever the value of
  \<^verbatim>\<open>opcode::invalid\<close>.
\<close>

lemma orphan_continuation:
  "trace (snd (recv_thread invalid orphan_client)) = [Message [0x78] continuation]"
  by (simp add: orphan_client_def loop_eval)

theorem continuation_dispatched_counterexample:
  "Message [0x78] continuation \<in> set (trace (snd (recv_thread continuation orphan_client)))"
  by (simp add: orphan_client_def loop_eval)

subsection \<open>The reassembly\<close>

text \<open>
  With \<^verbatim>\<open>opcode::invalid\<close> any value other than 0, the continuation frames of the
  example overwrite the pending opcode, and the message is dispatched as a
  continuation.
\<close>

lemma hello_other_invalid:
  "invalid \<noteq> continuation \<Longrightarrow>
   trace (snd (recv_thread invalid hello_client)) = [Message (map of_char ''Hello World'') continuation]"
  by (auto simp: hello_client_def loop_eval)

text \<open>
  Claim C5. For every frame: without FIN, its opcode becomes the pending opcode if it
  is not \<^verbatim>\<open>opcode::invalid\<close>, its payload is appended to the buffer, and nothing is
  dispatched; with FIN and a non-empty buffer, one message with the pending opcode and
  the buffer followed by the payload is handed to \<^verbatim>\<open>parse_ws_message\<close>, and the
  buffer is cleared when that returns; with FIN and an empty buffer, the frame's own
  opcode and payload are handed to \<^verbatim>\<open>parse_ws_message\<close>. The frames
  [FIN=0, text, "Hel"], [FIN=0, continuation, "lo "], [FIN=1, continuation, "World"]
  yield exactly one message for the handler, with opcode text and payload
  "Hello World", when \<^verbatim>\<open>opcode::invalid\<close> is the value 0 of the continuation opcode.
\<close>

theorem reassembly:
  "(\<not> fin f \<longrightarrow>
      handle_frame invalid f c =
        (Ret (), c\<lparr>last_opcode := (if opcode f \<noteq> invalid then opcode f else last_opcode c),
                   payloadbuf := payloadbuf c @ payload f\<rparr>)) \<and>
   (fin f \<and> payloadbuf c \<noteq> [] \<longrightarrow>
      handle_frame invalid f c =
        (case parse_ws_message (last_opcode c) (payloadbuf c @ payload f) c of
           (Ret u, c') \<Rightarrow> (Ret (), c'\<lparr>payloadbuf := []\<rparr>)
         | (Throw e, c') \<Rightarrow> (Throw e, c')
         | (Block b, c') \<Rightarrow> (Block b, c'))) \<and>
   (fin f \<and> payloadbuf c = [] \<longrightarrow>
      handle_frame invalid f c = parse_ws_message (opcode f) (payload f) c) \<and>
   recv_thread continuation hello_client =
     (Ret (), hello_client\<lparr>is_open := False, last_opcode := text_op, rx := [],
        trace := [Message (map of_char ''Hello World'') text_op]\<rparr>)"
proof (intro conjI impI)
  show "recv_thread continuation hello_client =
     (Ret (), hello_client\<lparr>is_open := False, last_opcode := text_op, rx := [],
        trace := [Message (map of_char ''Hello World'') text_op]\<rparr>)"
    by (simp add: hello_client_def loop_eval)
qed (simp_all add: handle_frame_def)

theorem reassembly_witness:
  "handle_frame continuation \<lparr>fin = False, opcode = text_op, payload = [0x48]\<rparr> hello_client
     = (Ret (), hello_client\<lparr>last_opcode := text_op, payloadbuf := [0x48]\<rparr>) \<and>
   handle_frame continuation \<lparr>fin = True, opcode = continuation, payload = [0x69]\<rparr>
       (hello_client\<lparr>last_opcode := text_op, payloadbuf := [0x48]\<rparr>)
     = (Ret (), hello_client\<lparr>last_opcode := text_op, payloadbuf := [],
                  trace := [Message [0x48, 0x69] text_op]\<rparr>) \<and>
   handle_frame continuation \<lparr>fin = True, opcode = binary, payload = [0x2a]\<rparr> hello_client
     = (Ret (), hello_client\<lparr>trace := [Message [0x2a] binary]\<rparr>)"
  using reassembly [where f = "\<lparr>fin = False, opcode = text_op, payload = [0x48]\<rparr>"
                      and invalid = continuation and c = hello_client]
    reassembly [where f = "\<lparr>fin = True, opcode = continuation, payload = [0x69]\<rparr>"
                  and invalid = continuation
                  and c = "hello_client\<lparr>last_opcode := text_op, payloadbuf := [0x48]\<rparr>"]
    reassembly [where f = "\<lparr>fin = True, opcode = binary, payload = [0x2a]\<rparr>"
                  and invalid = continuation and c = hello_client]
  by (simp add: hello_client_def parse_ws_message_def text_op_def continuation_def binary_def
      close_def ping_def)

subsection \<open>Ping and close\<close>

text \<open>
  Claim C6, as amended. For every message with opcode ping and payload \<open>p\<close>: when
  the socket takes the two writes of the reply, exactly one pong frame carrying \<open>p\<close>
  is written (its header, then \<open>p\<close>), after that the message handler is called with
  the ping and \<open>p\<close>; when the reply throws, \<^verbatim>\<open>parse_ws_message\<close> throws the same
  exception and the message handler is not called.
\<close>

theorem ping_reply:
  "(tx c = Accepted n1 # Accepted n2 # ts \<and>
    length (send_header pong (of_nat (length p))) \<le> n1 \<and> length p \<le> n2 \<and> has_msg_handler c \<longrightarrow>
      parse_ws_message ping p c =
        (Ret (), c\<lparr>tx := ts,
                   trace := trace c @ [Wrote (send_header pong (of_nat (length p))), Wrote p,
                                       Message p ping]\<rparr>)) \<and>
   (send p pong c = (Throw e, c') \<longrightarrow>
      parse_ws_message ping p c = (Throw e, c') \<and>
      (\<forall>q opc. Message q opc \<in> set (trace c') \<longrightarrow> Message q opc \<in> set (trace c)))"
proof (intro conjI impI)
  assume a: "tx c = Accepted n1 # Accepted n2 # ts \<and>
    length (send_header pong (of_nat (length p))) \<le> n1 \<and> length p \<le> n2 \<and> has_msg_handler c"
  then show "parse_ws_message ping p c =
        (Ret (), c\<lparr>tx := ts,
                   trace := trace c @ [Wrote (send_header pong (of_nat (length p))), Wrote p,
                                       Message p ping]\<rparr>)"
    by (simp add: parse_ws_message_def send_def send_raw_def ping_def close_def)
next
  assume s: "send p pong c = (Throw e, c')"
  then show "parse_ws_message ping p c = (Throw e, c')"
    by (simp add: parse_ws_message_def ping_def close_def)
  from send_fields[OF s] show "\<forall>q opc. Message q opc \<in> set (trace c') \<longrightarrow> Message q opc \<in> set (trace c)"
    by simp
qed

theorem ping_reply_witness:
  "parse_ws_message ping [0x61] (refused_client\<lparr>tx := [Accepted 6, Accepted 1]\<rparr>)
     = (Ret (), refused_client\<lparr>tx := [],
          trace := [Wrote [0x8a, 0x81, 0, 0, 0, 0], Wrote [0x61], Message [0x61] ping]\<rparr>) \<and>
   parse_ws_message ping [0x61] refused_client = (Throw (Send_failed 32), refused_client\<lparr>tx := []\<rparr>)"
  using ping_reply [where c = "refused_client\<lparr>tx := [Accepted 6, Accepted 1]\<rparr>"
                      and ?n1.0 = 6 and ?n2.0 = 1 and ts = "[]" and p = "[0x61]"]
    ping_reply [where c = refused_client and p = "[0x61]" and e = "Send_failed 32"
                  and c' = "refused_client\<lparr>tx := []\<rparr>"]
  by (simp add: refused_client_def send_def send_raw_def send_header_def pong_def)

text \<open>
  Claim C6 as stated fails: when \<^verbatim>\<open>::send\<close> fails, no pong is written and the ping
  is not passed to the message handler.
\<close>

theorem ping_not_forwarded_counterexample:
  "parse_ws_message ping [0x61] refused_client = (Throw (Send_failed 32), refused_client\<lparr>tx := []\<rparr>)
   \<and> trace (refused_client\<lparr>tx := []\<rparr>) = []"
  by (simp add: refused_client_def loop_eval)

text \<open>
  Claim C7. When the loop, on an open connection, reads a frame with FIN set that makes
  a message with opcode close (the frame's own opcode if nothing is buffered, the
  pending opcode otherwise), the receive task ends: \<^verbatim>\<open>open\<close> is false, the message
  handler has not been called, nothing more has been read from the socket (a second
  close frame stays unread), and the disconnect handler has been called once, with no
  exception. The destructor calls no handler.
\<close>

theorem close_message:
  assumes "is_open c" and "read_frame c = (Ret (Some f), c1)" and "fin f"
    and "(if payloadbuf c = [] then opcode f else last_opcode c) = close"
    and "has_disconn_handler c"
  shows "receive_task invalid c =
           (Ret (), c1\<lparr>is_open := False, payloadbuf := [], trace := trace c @ [Disconnect None]\<rparr>) \<and>
         trace (snd (client_pimpl_dtor shutdown_ok
           (c1\<lparr>is_open := False, payloadbuf := [], trace := trace c @ [Disconnect None]\<rparr>)))
           = trace c @ [Disconnect None]"
proof
  note k = read_frame_keeps[OF assms(2)]
  have o1: "is_open c1" using assms(2) by (rule read_frame_open)
  have hf: "handle_frame invalid f c1 = (Ret (), c1\<lparr>is_open := False, payloadbuf := []\<rparr>)"
  proof (cases "payloadbuf c = []")
    case True
    with assms(3,4) k show ?thesis
      by (cases c1) (simp add: handle_frame_def parse_ws_message_def keeps_def)
  next
    case False
    with assms(3,4) k show ?thesis
      by (cases c1) (simp add: handle_frame_def parse_ws_message_def keeps_def)
  qed
  have "recv_thread invalid c = (Ret (), c1\<lparr>is_open := False, payloadbuf := []\<rparr>)"
    using assms(1,2) hf
    by (subst recv_thread.simps) (simp add: recv_thread.simps[of invalid "c1\<lparr>is_open := False, payloadbuf := []\<rparr>"])
  then show "receive_task invalid c =
           (Ret (), c1\<lparr>is_open := False, payloadbuf := [], trace := trace c @ [Disconnect None]\<rparr>)"
    using assms(5) k by (simp add: receive_task_def keeps_def)
  show "trace (snd (client_pimpl_dtor shutdown_ok
           (c1\<lparr>is_open := False, payloadbuf := [], trace := trace c @ [Disconnect None]\<rparr>)))
           = trace c @ [Disconnect None]"
    by (simp add: client_pimpl_dtor_def split: option.splits)
qed

theorem close_message_witness:
  "receive_task continuation close_client
     = (Ret (), close_client\<lparr>is_open := False, rx := [Data [0x88, 0x00]], trace := [Disconnect None]\<rparr>) \<and>
   trace (snd (client_pimpl_dtor True
       (close_client\<lparr>is_open := False, rx := [Data [0x88, 0x00]], trace := [Disconnect None]\<rparr>)))
     = [Disconnect None]"
proof -
  have rf: "read_frame close_client =
      (Ret (Some \<lparr>fin = True, opcode = close, payload = []\<rparr>), close_client\<lparr>rx := [Data [0x88, 0x00]]\<rparr>)"
    by (simp add: close_client_def loop_eval)
  have "is_open close_client" "has_disconn_handler close_client"
    "fin \<lparr>fin = True, opcode = close, payload = []\<rparr>"
    "(if payloadbuf close_client = [] then opcode \<lparr>fin = True, opcode = close, payload = []\<rparr>
      else last_opcode close_client) = close"
    by (simp_all add: close_client_def)
  from close_message [OF this(1) rf this(3,4,2), where invalid = continuation and shutdown_ok = True]
  show ?thesis by (simp add: close_client_def)
qed

section \<open>Properties of the reads\<close>

subsection \<open>Input that comes later\<close>

lemma feed_fields [simp]:
  "is_open (feed c X) = is_open c" "last_opcode (feed c X) = last_opcode c"
  "payloadbuf (feed c X) = payloadbuf c" "has_msg_handler (feed c X) = has_msg_handler c"
  "has_disconn_handler (feed c X) = has_disconn_handler c" "rx (feed c X) = rx c @ X"
  "tx (feed c X) = tx c" "trace (feed c X) = trace c"
  by (simp_all add: feed_def)

lemma recv_loop_more:
  "recv_loop left acc es = (r, es') \<Longrightarrow> r \<noteq> Starved \<Longrightarrow>
   recv_loop left acc (es @ X) = (r, es' @ X)"
  by (induction left acc es rule: recv_loop.induct) (auto split: if_splits)

lemma recv_loop_starved:
  "recv_loop left acc es = (Starved, es') \<Longrightarrow>
   es' = [] \<and> (\<exists>left' acc'. \<forall>X. recv_loop left acc (es @ X) = recv_loop left' acc' X)"
proof (induction left acc es rule: recv_loop.induct)
  case (1 left acc)
  then show ?case by auto
next
  case (2 left acc es)
  then show ?case by simp
next
  case (3 left acc e es)
  then show ?case by (auto split: if_splits)
next
  case (4 left acc bs es)
  then show ?case by (auto split: if_splits)
qed

lemma recv_more:
  assumes "recv n c = (r, c')" and "r \<noteq> Block In_recv"
  shows "recv n (feed c X) = (r, feed c' X)"
proof -
  obtain r0 es' where l: "recv_loop (if n = 0 then 4096 else n) [] (rx c) = (r0, es')"
    by (cases "recv_loop (if n = 0 then 4096 else n) [] (rx c)")
  with assms have "r0 \<noteq> Starved" by (auto simp: recv_def)
  from recv_loop_more[OF l this, where X = X] l assms(1) show ?thesis
    by (cases r0) (auto simp: recv_def feed_def split: if_splits)
qed

lemma recv_blocked:
  assumes "recv n c = (Block b, cB)"
  shows "b = In_recv" and "cB = c\<lparr>rx := []\<rparr>"
    and "recv n (feed c (Eof # rest)) = (Ret [], c\<lparr>is_open := False, rx := rest\<rparr>)"
    and "recv n (feed c (Err e # rest)) =
           (if e = EWOULDBLOCK then recv n (feed c rest)
            else if e = ECONNRESET then (Ret [], c\<lparr>is_open := False, rx := rest\<rparr>)
            else (Throw (Recv_failed e), c\<lparr>rx := rest\<rparr>))"
proof -
  obtain r0 es' where l: "recv_loop (if n = 0 then 4096 else n) [] (rx c) = (r0, es')"
    by (cases "recv_loop (if n = 0 then 4096 else n) [] (rx c)")
  with assms have r0: "r0 = Starved" by (cases r0) (auto simp: recv_def split: if_splits)
  from recv_loop_starved[OF l[unfolded r0]] obtain left' acc' where
    e: "es' = []" and k: "\<And>X. recv_loop (if n = 0 then 4096 else n) [] (rx c @ X) = recv_loop left' acc' X"
    by blast
  from assms l r0 e show "b = In_recv" "cB = c\<lparr>rx := []\<rparr>" by (auto simp: recv_def)
  show "recv n (feed c (Eof # rest)) = (Ret [], c\<lparr>is_open := False, rx := rest\<rparr>)"
    by (simp add: recv_def feed_def k)
  show "recv n (feed c (Err e # rest)) =
           (if e = EWOULDBLOCK then recv n (feed c rest)
            else if e = ECONNRESET then (Ret [], c\<lparr>is_open := False, rx := rest\<rparr>)
            else (Throw (Recv_failed e), c\<lparr>rx := rest\<rparr>))"
    by (simp add: recv_def feed_def k split: prod.splits rd.splits)
qed

lemma goodI:
  assumes "\<And>c r c' X. m c = (r, c') \<Longrightarrow> r \<noteq> Block In_recv \<Longrightarrow> m (feed c X) = (r, feed c' X)"
    and "\<And>c cB rest. m c = (Block In_recv, cB) \<Longrightarrow>
           m (feed c (Eof # rest)) = (Ret None, cB\<lparr>is_open := False, rx := rest\<rparr>)"
    and "\<And>c cB rest e. m c = (Block In_recv, cB) \<Longrightarrow>
        m (feed c (Err e # rest)) =
          (if e = EWOULDBLOCK then m (feed c rest)
           else if e = ECONNRESET then (Ret None, cB\<lparr>is_open := False, rx := rest\<rparr>)
           else (Throw (Recv_failed e), cB\<lparr>rx := rest\<rparr>))"
  shows "good m"
  unfolding good_def using assms by blast

lemma good_more: "good m \<Longrightarrow> m c = (r, c') \<Longrightarrow> r \<noteq> Block In_recv \<Longrightarrow> m (feed c X) = (r, feed c' X)"
  unfolding good_def by blast

lemma good_eof: "good m \<Longrightarrow> m c = (Block In_recv, cB) \<Longrightarrow>
    m (feed c (Eof # rest)) = (Ret None, cB\<lparr>is_open := False, rx := rest\<rparr>)"
  unfolding good_def by blast

lemma good_err: "good m \<Longrightarrow> m c = (Block In_recv, cB) \<Longrightarrow>
    m (feed c (Err e # rest)) =
          (if e = EWOULDBLOCK then m (feed c rest)
           else if e = ECONNRESET then (Ret None, cB\<lparr>is_open := False, rx := rest\<rparr>)
           else (Throw (Recv_failed e), cB\<lparr>rx := rest\<rparr>))"
  unfolding good_def by blast

lemma good_return: "good (\<lambda>c. (Ret x, c))"
  by (rule goodI) auto

lemma good_recv_or_break:
  assumes k: "\<And>s. good (k s)"
  shows "good (recv_or_break n k)"
proof (rule goodI)
  fix c r c' X
  assume m: "recv_or_break n k c = (r, c')" and nb: "r \<noteq> Block In_recv"
  obtain r1 c1 where r: "recv n c = (r1, c1)" by (cases "recv n c")
  have r1: "r1 \<noteq> Block In_recv"
    using m nb r by (auto simp: recv_or_break_def)
  note f = recv_more[OF r r1, where X = X]
  show "recv_or_break n k (feed c X) = (r, feed c' X)"
  proof (cases r1)
    case (Ret s)
    show ?thesis
    proof (cases "is_open c1")
      case True
      with m r Ret have "k s c1 = (r, c')" by (simp add: recv_or_break_def)
      from good_more[OF k this nb, where X = X] f Ret True show ?thesis
        by (simp add: recv_or_break_def)
    next
      case False
      with m r Ret f show ?thesis by (auto simp: recv_or_break_def)
    qed
  next
    case (Throw e)
    with m r f show ?thesis by (auto simp: recv_or_break_def)
  next
    case (Block b)
    with r recv_blocked(1)[where n = n and c = c and b = b and cB = c1] r1 show ?thesis by simp
  qed
next
  fix c cB rest
  assume m: "recv_or_break n k c = (Block In_recv, cB)"
  obtain r1 c1 where r: "recv n c = (r1, c1)" by (cases "recv n c")
  show "recv_or_break n k (feed c (Eof # rest)) = (Ret None, cB\<lparr>is_open := False, rx := rest\<rparr>)"
  proof (cases r1)
    case (Ret s)
    with m r have o: "is_open c1" and ks: "k s c1 = (Block In_recv, cB)"
      by (auto simp: recv_or_break_def split: if_splits)
    from recv_more[OF r, where X = "Eof # rest"] Ret o good_eof[OF k ks, where rest = rest]
    show ?thesis
      by (simp add: recv_or_break_def)
  next
    case (Throw e)
    with m r show ?thesis by (simp add: recv_or_break_def)
  next
    case (Block b)
    with m r have "cB = c1" by (simp add: recv_or_break_def)
    with recv_blocked(2)[OF r[unfolded Block]]
      recv_blocked(3)[OF r[unfolded Block], where rest = rest] show ?thesis
      by (simp add: recv_or_break_def)
  qed
next
  fix c cB rest e
  assume m: "recv_or_break n k c = (Block In_recv, cB)"
  obtain r1 c1 where r: "recv n c = (r1, c1)" by (cases "recv n c")
  show "recv_or_break n k (feed c (Err e # rest)) =
          (if e = EWOULDBLOCK then recv_or_break n k (feed c rest)
           else if e = ECONNRESET then (Ret None, cB\<lparr>is_open := False, rx := rest\<rparr>)
           else (Throw (Recv_failed e), cB\<lparr>rx := rest\<rparr>))"
  proof (cases r1)
    case (Ret s)
    with m r have o: "is_open c1" and ks: "k s c1 = (Block In_recv, cB)"
      by (auto simp: recv_or_break_def split: if_splits)
    from recv_more[OF r, where X = "Err e # rest"] recv_more[OF r, where X = rest] Ret o
      good_err[OF k ks, where e = e and rest = rest] show ?thesis
      by (simp add: recv_or_break_def)
  next
    case (Throw e)
    with m r show ?thesis by (simp add: recv_or_break_def)
  next
    case (Block b)
    with m r have "cB = c1" by (simp add: recv_or_break_def)
    with recv_blocked(2)[OF r[unfolded Block]]
      recv_blocked(4)[OF r[unfolded Block], where e = e and rest = rest] show ?thesis
      by (simp add: recv_or_break_def)
  qed
qed

lemma good_read_extlen: "(\<And>l. good (k l)) \<Longrightarrow> good (read_extlen len k)"
  by (simp add: read_extlen_def good_recv_or_break)

lemma good_read_mask: "(\<And>s. good (k s)) \<Longrightarrow> good (read_mask m k)"
  by (simp add: read_mask_def good_recv_or_break)

lemma good_read_payload:
  assumes k: "\<And>s. good (k s)"
  shows "good (read_payload len k)"
proof (cases "len = 0")
  case False
  then show ?thesis by (simp add: read_payload_def good_recv_or_break k)
next
  case True
  have "good (\<lambda>c. if is_open c then k [] c else (Ret None, c))"
  proof (rule goodI)
    fix c r c' X
    assume "(if is_open c then k [] c else (Ret None, c)) = (r, c')" "r \<noteq> Block In_recv"
    then show "(if is_open (feed c X) then k [] (feed c X) else (Ret None, feed c X)) = (r, feed c' X)"
      using good_more[OF k[of "[]"], where c = c and r = r and c' = c' and X = X]
      by (auto split: if_splits)
  next
    fix c cB rest
    assume "(if is_open c then k [] c else (Ret None, c)) = (Block In_recv, cB)"
    then show "(if is_open (feed c (Eof # rest)) then k [] (feed c (Eof # rest))
                else (Ret None, feed c (Eof # rest))) = (Ret None, cB\<lparr>is_open := False, rx := rest\<rparr>)"
      using good_eof[OF k[of "[]"], where c = c and cB = cB and rest = rest]
      by (auto split: if_splits)
  next
    fix c cB rest e
    assume "(if is_open c then k [] c else (Ret None, c)) = (Block In_recv, cB)"
    then show "(if is_open (feed c (Err e # rest)) then k [] (feed c (Err e # rest))
                else (Ret None, feed c (Err e # rest))) =
          (if e = EWOULDBLOCK then (if is_open (feed c rest) then k [] (feed c rest) else (Ret None, feed c rest))
           else if e = ECONNRESET then (Ret None, cB\<lparr>is_open := False, rx := rest\<rparr>)
           else (Throw (Recv_failed e), cB\<lparr>rx := rest\<rparr>))"
      using good_err[OF k[of "[]"], where c = c and cB = cB and rest = rest and e = e]
      by (auto split: if_splits)
  qed
  with True show ?thesis by (simp add: read_payload_def)
qed

lemma good_read_frame: "good read_frame"
  unfolding read_frame_def
  by (intro good_recv_or_break good_read_extlen good_read_mask good_read_payload good_return)

lemma send_raw_feed:
  "send_raw s (feed c X) = (case send_raw s c of (r, c') \<Rightarrow> (r, feed c' X))"
  by (simp add: send_raw_def feed_def split: list.splits tx_result.splits)

lemma send_feed:
  "send p opc (feed c X) = (case send p opc c of (r, c') \<Rightarrow> (r, feed c' X))"
  by (simp add: send_def send_raw_feed split: prod.splits outcome.splits)

lemma parse_ws_message_feed:
  "parse_ws_message opc p (feed c X) = (case parse_ws_message opc p c of (r, c') \<Rightarrow> (r, feed c' X))"
proof (cases "opc = close")
  case True
  then show ?thesis by (simp add: parse_ws_message_def feed_def)
next
  case False
  show ?thesis
  proof (cases "opc = ping")
    case True
    obtain r1 c1 where s: "send p pong c = (r1, c1)" by (cases "send p pong c")
    have "(feed c1 X)\<lparr>trace := trace c1 @ [Message p opc]\<rparr>
          = feed (c1\<lparr>trace := trace c1 @ [Message p opc]\<rparr>) X"
      by (simp add: feed_def)
    with s True False show ?thesis
      by (cases r1) (simp_all add: parse_ws_message_def send_feed)
  next
    case False
    with \<open>opc \<noteq> close\<close> show ?thesis by (simp add: parse_ws_message_def feed_def)
  qed
qed

lemma handle_frame_feed:
  "handle_frame invalid f (feed c X) = (case handle_frame invalid f c of (r, c') \<Rightarrow> (r, feed c' X))"
proof (cases "fin f")
  case False
  then show ?thesis by (simp add: handle_frame_def feed_def)
next
  case True
  show ?thesis
  proof (cases "payloadbuf c = []")
    case True
    with \<open>fin f\<close> show ?thesis by (simp add: handle_frame_def parse_ws_message_feed)
  next
    case False
    obtain r1 c1 where p: "parse_ws_message (last_opcode c) (payloadbuf c @ payload f) c = (r1, c1)"
      by (cases "parse_ws_message (last_opcode c) (payloadbuf c @ payload f) c")
    have "(feed c1 X)\<lparr>payloadbuf := []\<rparr> = feed (c1\<lparr>payloadbuf := []\<rparr>) X"
      by (simp add: feed_def)
    with p False \<open>fin f\<close> show ?thesis
      by (cases r1) (simp_all add: handle_frame_def parse_ws_message_feed)
  qed
qed

lemma send_raw_block: "send_raw s c = (Block b, c') \<Longrightarrow> b = In_send"
  by (auto simp: send_raw_def split: list.splits tx_result.splits if_splits)

lemma send_block: "send p opc c = (Block b, c') \<Longrightarrow> b = In_send"
  by (auto simp: send_def split: prod.splits outcome.splits dest: send_raw_block)

lemma parse_ws_message_block: "parse_ws_message opc p c = (Block b, c') \<Longrightarrow> b = In_send"
  by (auto simp: parse_ws_message_def split: prod.splits outcome.splits if_splits dest: send_block)

lemma handle_frame_block: "handle_frame invalid f c = (Block b, c') \<Longrightarrow> b = In_send"
  by (auto simp: handle_frame_def split: prod.splits outcome.splits if_splits
      dest: parse_ws_message_block)

lemma recv_thread_blocked:
  assumes "recv_thread invalid c = (Block In_recv, cB)"
  shows "recv_thread invalid (feed c (Eof # rest)) = (Ret (), cB\<lparr>is_open := False, rx := rest\<rparr>) \<and>
         recv_thread invalid (feed c (Err e # rest)) =
           (if e = EWOULDBLOCK then recv_thread invalid (feed c rest)
            else if e = ECONNRESET then (Ret (), cB\<lparr>is_open := False, rx := rest\<rparr>)
            else (Throw (Recv_failed e), cB\<lparr>rx := rest\<rparr>))"
  using assms
proof (induction invalid c rule: recv_thread.induct)
  case (1 invalid c)
  have o: "is_open c"
    using "1.prems" by (subst (asm) recv_thread.simps) (auto split: if_splits)
  obtain r1 c1 where rf: "read_frame c = (r1, c1)" by (cases "read_frame c")
  have step: "recv_thread invalid c' =
     (case read_frame c' of
           (Ret None, c1) \<Rightarrow> (Ret (), c1)
         | (Ret (Some f), c1) \<Rightarrow>
             (case handle_frame invalid f c1 of
                (Ret u, c2) \<Rightarrow> recv_thread invalid c2
              | (Throw e, c2) \<Rightarrow> (Throw e, c2)
              | (Block b, c2) \<Rightarrow> (Block b, c2))
         | (Throw e, c1) \<Rightarrow> (Throw e, c1)
         | (Block b, c1) \<Rightarrow> (Block b, c1))" if "is_open c'" for c'
    using that by (subst recv_thread.simps) simp
  have r1_cases: "(r1 = Block In_recv \<and> c1 = cB) \<or>
      (\<exists>f u c2. r1 = Ret (Some f) \<and> handle_frame invalid f c1 = (Ret u, c2) \<and>
                  recv_thread invalid c2 = (Block In_recv, cB))"
    using "1.prems" rf unfolding step[OF o]
    by (auto split: outcome.splits option.splits prod.splits dest: handle_frame_block)
  show ?case
  proof (rule conjI)
    show "recv_thread invalid (feed c (Eof # rest)) = (Ret (), cB\<lparr>is_open := False, rx := rest\<rparr>)"
      using r1_cases
    proof
      assume "r1 = Block In_recv \<and> c1 = cB"
      with rf have "read_frame c = (Block In_recv, cB)" by simp
      from good_eof[OF good_read_frame this, where rest = rest] o show ?thesis
        by (simp add: step)
    next
      assume "\<exists>f u c2. r1 = Ret (Some f) \<and> handle_frame invalid f c1 = (Ret u, c2) \<and>
                  recv_thread invalid c2 = (Block In_recv, cB)"
      then obtain f u c2 where r1: "r1 = Ret (Some f)"
        and hf: "handle_frame invalid f c1 = (Ret u, c2)"
        and rt: "recv_thread invalid c2 = (Block In_recv, cB)" by blast
      have nn: "\<not> \<not> is_open c" using o by simp
      have "recv_thread invalid (feed c2 (Eof # rest)) = (Ret (), cB\<lparr>is_open := False, rx := rest\<rparr>)"
        using "1.IH"[OF nn rf[symmetric] r1 refl hf[symmetric] refl rt] by (rule conjunct1)
      moreover have "read_frame (feed c (Eof # rest)) = (Ret (Some f), feed c1 (Eof # rest))"
        using good_more[OF good_read_frame rf, where X = "Eof # rest"] r1 by simp
      ultimately show ?thesis using o hf
        by (simp add: step handle_frame_feed)
    qed
    show "recv_thread invalid (feed c (Err e # rest)) =
           (if e = EWOULDBLOCK then recv_thread invalid (feed c rest)
            else if e = ECONNRESET then (Ret (), cB\<lparr>is_open := False, rx := rest\<rparr>)
            else (Throw (Recv_failed e), cB\<lparr>rx := rest\<rparr>))"
      using r1_cases
    proof
      assume "r1 = Block In_recv \<and> c1 = cB"
      with rf have "read_frame c = (Block In_recv, cB)" by simp
      from good_err[OF good_read_frame this, where rest = rest and e = e] o show ?thesis
        by (simp add: step)
    next
      assume "\<exists>f u c2. r1 = Ret (Some f) \<and> handle_frame invalid f c1 = (Ret u, c2) \<and>
                  recv_thread invalid c2 = (Block In_recv, cB)"
      then obtain f u c2 where r1: "r1 = Ret (Some f)"
        and hf: "handle_frame invalid f c1 = (Ret u, c2)"
        and rt: "recv_thread invalid c2 = (Block In_recv, cB)" by blast
      have nn: "\<not> \<not> is_open c" using o by simp
      have ih: "recv_thread invalid (feed c2 (Err e # rest)) =
           (if e = EWOULDBLOCK then recv_thread invalid (feed c2 rest)
            else if e = ECONNRESET then (Ret (), cB\<lparr>is_open := False, rx := rest\<rparr>)
            else (Throw (Recv_failed e), cB\<lparr>rx := rest\<rparr>))"
        using "1.IH"[OF nn rf[symmetric] r1 refl hf[symmetric] refl rt] by (rule conjunct2)
      have rd: "read_frame (feed c X) = (Ret (Some f), feed c1 X)" for X
        using good_more[OF good_read_frame rf, where X = X] r1 by simp
      have "recv_thread invalid (feed c X) = recv_thread invalid (feed c2 X)" for X
        using o hf by (simp add: step rd handle_frame_feed)
      with ih show ?thesis by simp
    qed
  qed
qed

lemma recv_thread_handler:
  "recv_thread invalid c = (r, c') \<Longrightarrow> has_disconn_handler c' = has_disconn_handler c"
proof (induction invalid c arbitrary: r c' rule: recv_thread.induct)
  case (1 invalid c)
  show ?case
  proof (cases "is_open c")
    case False
    with "1.prems" show ?thesis by (simp add: recv_thread.simps)
  next
    case True
    obtain r1 c1 where rf: "read_frame c = (r1, c1)" by (cases "read_frame c")
    note k = read_frame_keeps[OF rf]
    show ?thesis
    proof (cases "\<exists>f. r1 = Ret (Some f)")
      case False
      with True rf "1.prems"(1) have "c' = c1"
        by (subst (asm) recv_thread.simps) (auto split: outcome.splits option.splits)
      with k show ?thesis by (simp add: keeps_def)
    next
      case True
      then obtain f where r1: "r1 = Ret (Some f)" by blast
      obtain r2 c2 where hf: "handle_frame invalid f c1 = (r2, c2)"
        by (cases "handle_frame invalid f c1")
      note h = handle_frame_fields[OF hf]
      show ?thesis
      proof (cases "\<exists>u. r2 = Ret u")
        case False
        with \<open>is_open c\<close> rf r1 hf "1.prems"(1) have "c' = c2"
          by (subst (asm) recv_thread.simps) (auto split: outcome.splits)
        with h k show ?thesis by (simp add: keeps_def)
      next
        case True
        then obtain u where r2: "r2 = Ret u" by blast
        with \<open>is_open c\<close> rf r1 hf "1.prems"(1) have rt: "recv_thread invalid c2 = (r, c')"
          by (subst (asm) recv_thread.simps) simp
        have nn: "\<not> \<not> is_open c" using \<open>is_open c\<close> by simp
        have "has_disconn_handler c' = has_disconn_handler c2"
          using "1.IH"[OF nn rf[symmetric] r1 refl hf[symmetric] r2 rt] .
        with h k show ?thesis by (simp add: keeps_def)
      qed
    qed
  qed
qed

subsection \<open>The end of the stream inside a frame\<close>

lemma starves_recv_or_break:
  assumes "length bs = n" "0 < n" "j < n + length ws"
    and "\<And>i. i < length ws \<Longrightarrow> starves (k bs) (take i ws)"
  shows "starves (recv_or_break n k) (take j (bs @ ws))"
  unfolding starves_def
proof (intro allI impI)
  fix c :: client_pimpl and chs
  assume a: "is_open c \<and> rx c = map Data chs \<and> [] \<notin> set chs \<and> concat chs = take j (bs @ ws)"
  show "recv_or_break n k c = (Block In_recv, c\<lparr>rx := []\<rparr>)"
  proof (cases "j < n")
    case True
    then have "length (concat chs) < n" using a assms(1) by simp
    with a show ?thesis by (simp add: recv_or_break_starve)
  next
    case False
    then have cc: "concat chs = bs @ take (j - n) ws" using a assms(1) by simp
    have r: "rx c = map Data chs @ []" using a by simp
    from a have o: "is_open c" "[] \<notin> set chs" by simp_all
    obtain chs' where h: "recv_or_break n k c = k bs (c\<lparr>rx := map Data chs' @ []\<rparr>)"
      and w: "[] \<notin> set chs'" "concat chs' = take (j - n) ws"
      using recv_or_break_filled[OF o(1) r o(2) cc assms(1,2), where k = k] by auto
    have "j - n < length ws" using False assms(3) by simp
    from assms(4)[OF this] have "starves (k bs) (take (j - n) ws)" .
    moreover have "is_open (c\<lparr>rx := map Data chs'\<rparr>)" "rx (c\<lparr>rx := map Data chs'\<rparr>) = map Data chs'"
      using o(1) by simp_all
    ultimately have "k bs (c\<lparr>rx := map Data chs'\<rparr>) = (Block In_recv, c\<lparr>rx := map Data chs'\<rparr>\<lparr>rx := []\<rparr>)"
      using w unfolding starves_def by blast
    with h show ?thesis by simp
  qed
qed

lemma starves_read_payload:
  assumes "unat len = length body" "length body < 2 ^ 32" "j < length body"
  shows "starves (read_payload len k) (take j body)"
proof -
  have "unat len \<noteq> 0" using assms(1,3) by auto
  then have nz: "len \<noteq> 0" by auto
  have n: "unat (ucast len :: 32 word) = length body"
    using assms(1,2) by (simp add: unsigned_ucast_eq take_bit_eq_mod)
  have "starves (recv_or_break (length body) k) (take j (body @ []))"
  proof (rule starves_recv_or_break)
    show "length body = length body" by simp
    show "0 < length body" using assms(3) by auto
    show "j < length body + length ([] :: byte list)" using assms(3) by simp
    fix i assume "i < length ([] :: byte list)"
    then show "starves (k body) (take i [])" by simp
  qed
  with nz n show ?thesis by (simp add: read_payload_def)
qed

lemma starves_read_mask:
  assumes "length mk = (if masked then 4 else 0)" "j < length mk + length body"
    and "\<And>i. i < length body \<Longrightarrow> starves (k mk) (take i body)"
  shows "starves (read_mask masked k) (take j (mk @ body))"
proof (cases masked)
  case True
  with assms(1) have "length mk = 4" by simp
  then have "starves (recv_or_break 4 k) (take j (mk @ body))"
    using assms(2,3) by (intro starves_recv_or_break) simp_all
  with True show ?thesis by (simp add: read_mask_def)
next
  case False
  with assms(1) have "mk = []" by simp
  with False assms(2,3) show ?thesis by (simp add: read_mask_def)
qed

text \<open>The length that the bytes of an extended length denote, as the loop computes it.\<close>

lemma unat_ucast_byte: "unat (ucast (b :: byte) :: 64 word) = unat b"
proof -
  have "unat b < 2 ^ 8" using unsigned_less[of b] by simp
  then have "unat b < 2 ^ 64" by simp
  then show ?thesis by (simp add: unsigned_ucast_eq take_bit_nat_eq_self)
qed

lemma decode_step:
  assumes "unat (l :: 64 word) < 2 ^ 56"
  shows "unat (push_bit 8 l OR ucast (b :: byte)) = 256 * unat l + unat b"
proof -
  have d: "push_bit 8 l AND ucast b = 0"
    by (rule bit_word_eqI) (auto simp: bit_simps dest: bit_imp_le_length)
  have b: "unat b < 256" using unsigned_less[of b] by simp
  have "unat l * unat (256 :: 64 word) < 2 ^ LENGTH(64)" using assms by simp
  then have "unat (l * 256) = unat l * unat (256 :: 64 word)" by (simp only: unat_mult_lem)
  then have m: "unat (push_bit 8 l) = 256 * unat l" by (simp add: push_bit_eq_mult)
  have "unat (push_bit 8 l) + unat (ucast b :: 64 word) < 2 ^ LENGTH(64)"
    using assms b by (simp add: m unat_ucast_byte)
  then have "unat (push_bit 8 l + ucast b) = unat (push_bit 8 l) + unat (ucast b :: 64 word)"
    by (simp only: unat_add_lem)
  then show ?thesis using disjunctive_add_eq_or[OF d] by (simp add: m unat_ucast_byte)
qed

lemma decode_be_value:
  "length bs \<le> 8 \<Longrightarrow>
   unat (foldl (\<lambda>l b. push_bit 8 l OR ucast b) (0 :: 64 word) bs) = be_value bs \<and>
   be_value bs < 256 ^ length bs"
proof (induction bs rule: rev_induct)
  case Nil
  then show ?case by (simp add: be_value_def)
next
  case (snoc b bs)
  let ?l = "foldl (\<lambda>l b. push_bit 8 l OR ucast b) (0 :: 64 word) bs"
  from snoc have ih: "unat ?l = be_value bs" "be_value bs < 256 ^ length bs" and l: "length bs \<le> 7"
    by simp_all
  have "(256 :: nat) ^ length bs \<le> 256 ^ 7" using l by (intro power_increasing) simp_all
  with ih have "unat ?l < 2 ^ 56" by simp
  from decode_step[OF this, of b] ih(1)
  have v: "unat (foldl (\<lambda>l b. push_bit 8 l OR ucast b) (0 :: 64 word) (bs @ [b])) = be_value (bs @ [b])"
    by (simp add: be_value_snoc)
  have "unat b < 256" using unsigned_less[of b] by simp
  with ih(2) have "256 * be_value bs + unat b < 256 * 256 ^ length bs" by linarith
  with v show ?case by (simp add: be_value_snoc)
qed

lemma decode8: "length ext = 8 \<Longrightarrow> unat (foldl (\<lambda>l b. push_bit 8 l OR ucast b) (0 :: 64 word) ext) = be_value ext"
  using decode_be_value[of ext] by simp

lemma decode2:
  assumes "length ext = 2"
  shows "unat (push_bit 8 (ucast (ext ! 0)) OR ucast (ext ! 1) :: 64 word) = be_value ext"
proof -
  from assms obtain a b where e: "ext = [a, b]"
    by (cases ext; simp) (metis length_0_conv length_Suc_conv)
  have "unat (foldl (\<lambda>l b. push_bit 8 l OR ucast b) (0 :: 64 word) ext) = be_value ext"
    using decode_be_value[of ext] assms by simp
  then show ?thesis by (simp add: e)
qed

lemma decode0: "unat (ucast (x :: byte) :: 64 word) = unat x"
  by (rule unat_ucast_byte)

lemma starves_tail:
  assumes "length mk = (if masked then 4 else 0)" "unat len = length body" "length body < 2 ^ 32"
    and "i < length mk + length body"
  shows "starves (read_mask masked (\<lambda>mask_key. read_payload len (k mask_key))) (take i (mk @ body))"
  using assms(1,4)
proof (rule starves_read_mask)
  fix i' assume "i' < length body"
  with assms(2,3) show "starves (read_payload len (k mk)) (take i' body)"
    by (rule starves_read_payload)
qed

lemma ucast_byte_eq: "(ucast (x :: byte) :: 64 word) = ucast (y :: byte) \<longleftrightarrow> x = y"
  by (simp add: word_unat_eq_iff unat_ucast_byte)

lemma ucast_byte_num: "(ucast (x :: byte) :: 64 word) = 126 \<longleftrightarrow> x = 126"
  "(ucast (x :: byte) :: 64 word) = 127 \<longleftrightarrow> x = 127"
  using ucast_byte_eq[of x 126] ucast_byte_eq[of x 127] by simp_all

lemma starves_read_frame:
  assumes "length ext = (if snd_byte AND 0x7f = 126 then 2 else if snd_byte AND 0x7f = 127 then 8 else 0)"
    and "length mk = (if (snd_byte AND 0x80) = 0 then 0 else 4)"
    and "length body = (if snd_byte AND 0x7f = 126 \<or> snd_byte AND 0x7f = 127 then be_value ext
                        else unat (snd_byte AND 0x7f))"
    and "length body < 2 ^ 32"
    and "j < 2 + length ext + length mk + length body"
  shows "starves read_frame (take j ([fst_byte, snd_byte] @ ext @ mk @ body))"
  unfolding read_frame_def
proof (rule starves_recv_or_break)
  show "length [fst_byte, snd_byte] = 2" by simp
  show "(0 :: nat) < 2" by simp
  show "j < 2 + length (ext @ mk @ body)" using assms(5) by simp
  fix i assume i: "i < length (ext @ mk @ body)"
  let ?K2 = "\<lambda>len. read_mask (([fst_byte, snd_byte] ! 1 AND 0x80) \<noteq> 0) (\<lambda>mask_key.
           read_payload len (\<lambda>body c.
             (Ret (Some \<lparr>fin = (([fst_byte, snd_byte] ! 0 AND 0x80) \<noteq> 0),
                         opcode = [fst_byte, snd_byte] ! 0 AND 0xf,
                         payload = (if ([fst_byte, snd_byte] ! 1 AND 0x80) \<noteq> 0
                                    then unmask mask_key body else body)\<rparr>), c)))"
  have mk: "length mk = (if ([fst_byte, snd_byte] ! 1 AND 0x80) \<noteq> 0 then 4 else 0)"
    using assms(2) by simp
  have tail: "starves (?K2 len) (take i' (mk @ body))"
    if "unat len = length body" "i' < length mk + length body" for len i'
    using mk that(1) assms(4) that(2) by (rule starves_tail)
  consider "snd_byte AND 0x7f = 126" | "snd_byte AND 0x7f = 127" | "snd_byte AND 0x7f \<noteq> 126" "snd_byte AND 0x7f \<noteq> 127"
    by blast
  then show "starves (read_extlen (ucast ([fst_byte, snd_byte] ! 1 AND 0x7f)) ?K2) (take i (ext @ mk @ body))"
  proof cases
    case 1
    then have e: "length ext = 2" "length body = be_value ext" using assms(1,3) by simp_all
    have "starves (recv_or_break 2 (\<lambda>extlen. ?K2 (push_bit 8 (ucast (extlen ! 0)) OR ucast (extlen ! 1))))
            (take i (ext @ mk @ body))"
    proof (rule starves_recv_or_break)
      show "length ext = 2" by (rule e(1))
      show "(0 :: nat) < 2" by simp
      show "i < 2 + length (mk @ body)" using i e(1) by simp
      fix i' assume "i' < length (mk @ body)"
      then show "starves (?K2 (push_bit 8 (ucast (ext ! 0)) OR ucast (ext ! 1))) (take i' (mk @ body))"
        using decode2[OF e(1)] e(2) by (intro tail) simp_all
    qed
    with 1 show ?thesis by (simp add: read_extlen_def ucast_byte_num)
  next
    case 2
    then have e: "length ext = 8" "length body = be_value ext" using assms(1,3) by simp_all
    have "starves (recv_or_break 8 (\<lambda>extlen. ?K2 (foldl (\<lambda>l b. push_bit 8 l OR ucast b) 0 extlen)))
            (take i (ext @ mk @ body))"
    proof (rule starves_recv_or_break)
      show "length ext = 8" by (rule e(1))
      show "(0 :: nat) < 8" by simp
      show "i < 8 + length (mk @ body)" using i e(1) by simp
      fix i' assume "i' < length (mk @ body)"
      then show "starves (?K2 (foldl (\<lambda>l b. push_bit 8 l OR ucast b) 0 ext)) (take i' (mk @ body))"
        using decode8[OF e(1)] e(2) by (intro tail) simp_all
    qed
    with 2 show ?thesis by (simp add: read_extlen_def ucast_byte_num)
  next
    case 3
    then have e: "ext = []" "length body = unat (snd_byte AND 0x7f)" using assms(1,3) by simp_all
    have "starves (?K2 (ucast (snd_byte AND 0x7f))) (take i (mk @ body))"
      using i e by (intro tail) (simp_all add: unat_ucast_byte)
    with 3 e(1) show ?thesis by (simp add: read_extlen_def ucast_byte_num)
  qed
qed

text \<open>
  Claim C10, as amended. Take a frame as it stands on the wire: two header bytes, the
  extended length (2 bytes if the low 7 bits of the second byte are 126, 8 bytes if
  they are 127, none otherwise), the mask key (4 bytes if the top bit of the second
  byte is set), and a payload as long as the frame announces, fewer than \<open>2 ^ 32\<close>
  bytes. When the socket delivers only a part of these bytes, in pieces of any size,
  and then reports the end of the stream (after the header, inside the extended
  length, inside the mask key or inside the payload), the loop returns without an
  exception, with \<^verbatim>\<open>open\<close> false and with the trace, the buffer and the pending
  opcode as they were before the frame: the message handler is not called, and
  nothing of the frame is kept.
\<close>

theorem eof_inside_frame:
  assumes "is_open c"
    and "length ext = (if snd_byte AND 0x7f = 126 then 2 else if snd_byte AND 0x7f = 127 then 8 else 0)"
    and "length mk = (if (snd_byte AND 0x80) = 0 then 0 else 4)"
    and "length body = (if snd_byte AND 0x7f = 126 \<or> snd_byte AND 0x7f = 127 then be_value ext
                        else unat (snd_byte AND 0x7f))"
    and "length body < 2 ^ 32"
    and "[] \<notin> set chs"
    and "concat chs = take j ([fst_byte, snd_byte] @ ext @ mk @ body)"
    and "j < 2 + length ext + length mk + length body"
  shows "recv_thread invalid (c\<lparr>rx := map Data chs @ Eof # rest\<rparr>)
           = (Ret (), c\<lparr>is_open := False, rx := rest\<rparr>)"
proof -
  let ?c = "c\<lparr>rx := map Data chs\<rparr>"
  have "starves read_frame (take j ([fst_byte, snd_byte] @ ext @ mk @ body))"
    using assms(2,3,4,5,8) by (rule starves_read_frame)
  moreover have "is_open ?c" "rx ?c = map Data chs" using assms(1) by simp_all
  ultimately have "read_frame ?c = (Block In_recv, ?c\<lparr>rx := []\<rparr>)"
    using assms(6,7) unfolding starves_def by blast
  then have "recv_thread invalid ?c = (Block In_recv, c\<lparr>rx := []\<rparr>)"
    using assms(1) by (subst recv_thread.simps) simp
  from recv_thread_blocked[OF this, where rest = rest] show ?thesis
    by (simp add: feed_def)
qed

theorem eof_inside_frame_witness:
  "recv_thread continuation (partial_client []\<lparr>rx := [Data [0x81, 0x05], Eof]\<rparr>)
     = (Ret (), partial_client []\<lparr>is_open := False, rx := []\<rparr>) \<and>
   recv_thread continuation (partial_client []\<lparr>rx := [Data [0x81], Data [0x7e, 0x01], Eof]\<rparr>)
     = (Ret (), partial_client []\<lparr>is_open := False, rx := []\<rparr>) \<and>
   recv_thread continuation (partial_client []\<lparr>rx := [Data [0x81, 0x85, 0x01, 0x02], Eof]\<rparr>)
     = (Ret (), partial_client []\<lparr>is_open := False, rx := []\<rparr>) \<and>
   recv_thread continuation (partial_client []\<lparr>rx := [Data [0x81, 0x05, 0x48], Data [0x65], Eof]\<rparr>)
     = (Ret (), partial_client []\<lparr>is_open := False, rx := []\<rparr>)"
  using eof_inside_frame [where c = "partial_client []" and invalid = continuation and rest = "[]"
      and fst_byte = "0x81" and snd_byte = "0x05" and ext = "[]" and mk = "[]"
      and body = "[0x48, 0x65, 0x6c, 0x6c, 0x6f]" and j = 2 and chs = "[[0x81, 0x05]]"]
    eof_inside_frame [where c = "partial_client []" and invalid = continuation and rest = "[]"
      and fst_byte = "0x81" and snd_byte = "0x7e" and ext = "[0x01, 0x00]" and mk = "[]"
      and body = "replicate 256 0x41" and j = 3 and chs = "[[0x81], [0x7e, 0x01]]"]
    eof_inside_frame [where c = "partial_client []" and invalid = continuation and rest = "[]"
      and fst_byte = "0x81" and snd_byte = "0x85" and ext = "[]" and mk = "[0x01, 0x02, 0x03, 0x04]"
      and body = "[0x48, 0x65, 0x6c, 0x6c, 0x6f]" and j = 4 and chs = "[[0x81, 0x85, 0x01, 0x02]]"]
    eof_inside_frame [where c = "partial_client []" and invalid = continuation and rest = "[]"
      and fst_byte = "0x81" and snd_byte = "0x05" and ext = "[]" and mk = "[]"
      and body = "[0x48, 0x65, 0x6c, 0x6c, 0x6f]" and j = 4 and chs = "[[0x81, 0x05, 0x48], [0x65]]"]
  by (simp add: partial_client_def be_value_def)

text \<open>
  Claim C10 as stated fails: \<^verbatim>\<open>recv((unsigned int)len)\<close> asks for the low 32 bits of
  the length. Of a frame that announces 4294967299 bytes of payload, three have come
  when the stream ends; the loop takes them for the whole payload and passes them to
  the message handler.
\<close>

theorem truncated_length_counterexample:
  "be_value [0, 0, 0, 1, 0, 0, 0, 3] = 4294967299 \<and>
   recv_thread continuation (partial_client []\<lparr>rx :=
       [Data [0x81, 0x7f, 0, 0, 0, 1, 0, 0, 0, 3, 0x61, 0x62, 0x63], Eof]\<rparr>)
     = (Ret (), partial_client []\<lparr>is_open := False, rx := [],
                  trace := [Message [0x61, 0x62, 0x63] text_op]\<rparr>)"
  by (simp add: be_value_def partial_client_def loop_eval)

subsection \<open>What a read can return\<close>

text \<open>
  Claim C8, as amended. After the handshake, for every read in which the loop waits
  for bytes: a read of length zero ends the loop and the disconnect handler is called
  with no error; \<^verbatim>\<open>EWOULDBLOCK\<close> is not fatal, the read goes on as if the error had
  not come; \<^verbatim>\<open>ECONNRESET\<close> is treated as a read of length zero, the disconnect handler
  is called with no error; any other error ends the loop and is passed to the
  disconnect handler as an error.
\<close>

theorem transport_read_results:
  assumes "recv_thread invalid c = (Block In_recv, cB)" and "has_disconn_handler c"
  shows "receive_task invalid (c\<lparr>rx := rx c @ Eof # rest\<rparr>)
           = (Ret (), cB\<lparr>is_open := False, rx := rest, trace := trace cB @ [Disconnect None]\<rparr>) \<and>
         receive_task invalid (c\<lparr>rx := rx c @ Err EWOULDBLOCK # rest\<rparr>)
           = receive_task invalid (c\<lparr>rx := rx c @ rest\<rparr>) \<and>
         receive_task invalid (c\<lparr>rx := rx c @ Err ECONNRESET # rest\<rparr>)
           = (Ret (), cB\<lparr>is_open := False, rx := rest, trace := trace cB @ [Disconnect None]\<rparr>) \<and>
         (e \<noteq> EWOULDBLOCK \<and> e \<noteq> ECONNRESET \<longrightarrow>
            receive_task invalid (c\<lparr>rx := rx c @ Err e # rest\<rparr>)
              = (Ret (), cB\<lparr>is_open := False, rx := rest,
                            trace := trace cB @ [Disconnect (Some (Recv_failed e))]\<rparr>))"
proof -
  have h: "has_disconn_handler cB"
    using recv_thread_handler[OF assms(1)] assms(2) by simp
  have ne: "ECONNRESET \<noteq> EWOULDBLOCK" by (simp add: ECONNRESET_def EWOULDBLOCK_def)
  note b = recv_thread_blocked[OF assms(1), unfolded feed_def]
  show ?thesis
    using b[where rest = rest and e = EWOULDBLOCK] b[where rest = rest and e = ECONNRESET]
      b[where rest = rest and e = e] h ne
    by (simp add: receive_task_def)
qed

theorem transport_read_results_witness:
  "receive_task continuation (partial_client [0x81, 0x05, 0x48]\<lparr>rx := [Data [0x81, 0x05, 0x48], Eof]\<rparr>)
     = (Ret (), partial_client []\<lparr>is_open := False, rx := [], trace := [Disconnect None]\<rparr>) \<and>
   receive_task continuation (partial_client [0x81, 0x05, 0x48]\<lparr>rx := [Data [0x81, 0x05, 0x48], Err 5]\<rparr>)
     = (Ret (), partial_client []\<lparr>is_open := False, rx := [],
                  trace := [Disconnect (Some (Recv_failed 5))]\<rparr>) \<and>
   receive_task continuation (partial_client [0x81, 0x05, 0x48]\<lparr>rx := [Data [0x81, 0x05, 0x48], Err EWOULDBLOCK, Eof]\<rparr>)
     = receive_task continuation (partial_client [0x81, 0x05, 0x48]\<lparr>rx := [Data [0x81, 0x05, 0x48], Eof]\<rparr>)"
proof -
  have b: "recv_thread continuation (partial_client [0x81, 0x05, 0x48])
             = (Block In_recv, partial_client []\<lparr>rx := []\<rparr>)"
    by (simp add: partial_client_def loop_eval)
  have h: "has_disconn_handler (partial_client [0x81, 0x05, 0x48])"
    by (simp add: partial_client_def)
  show ?thesis
    using transport_read_results [OF b h, where rest = "[]" and e = 5]
      transport_read_results [OF b h, where rest = "[Eof]" and e = 5]
    by (simp add: partial_client_def EWOULDBLOCK_def ECONNRESET_def)
qed

text \<open>
  Claim C8 as stated fails: \<^verbatim>\<open>ECONNRESET\<close> is an error other than \<^verbatim>\<open>EWOULDBLOCK\<close>, and
  the disconnect handler is called with no error.
\<close>

theorem connection_reset_counterexample:
  "receive_task continuation reset_client
     = (Ret (), reset_client\<lparr>is_open := False, rx := [], trace := [Disconnect None]\<rparr>)"
  by (simp add: reset_client_def loop_eval)

section \<open>Properties of the handshake\<close>

subsection \<open>Evaluating the parser on a given response\<close>

lemmas hs_eval = rfc_response_def CRLF_def parse_response_def parse_status_line_def str_find_def
  substr_to_def stoul_def isspace_def isdigit_def digits_value_def header_loop.simps header_line_def
  emplace_def header_value_def status_of_def Let_def

lemmas hs_eval2 = hs_eval bad_response_def dup_response_def response_text_def header_text_def rfc_key_def

subsection \<open>The accept value\<close>

lemma accept_rfc: "accept_value ''dGhlIHNhbXBsZSBub25jZQ=='' = ''s3pPLMBiTxaQ9kYGzzhZRbK+xOo=''"
  by code_simp

lemma accept_second: "accept_value ''x3JJHMbDL1EzLkh9GBhXDw=='' = ''HSmrc0sMlYUkAGmm5OPpG2HaGWk=''"
  by code_simp

text \<open>Test vectors of RFC 3174 and RFC 4648.\<close>

lemma sha1_abc:
  "sha1 (map of_char ''abc'') =
     [0xa9, 0x99, 0x3e, 0x36, 0x47, 0x06, 0x81, 0x6a, 0xba, 0x3e, 0x25, 0x71, 0x78, 0x50, 0xc2, 0x6c,
      0x9c, 0xd0, 0xd8, 0x9d]"
  by code_simp

lemma b64encode_vectors:
  "b64encode (map of_char ''foob'') = ''Zm9vYg==''"
  "b64encode (map of_char ''fooba'') = ''Zm9vYmE=''"
  "b64encode (map of_char ''foobar'') = ''Zm9vYmFy''"
  by code_simp+


lemma rfc_response_parsed:
  "status_of rfc_response = Some 101"
  "header_value rfc_response ''Upgrade'' = Some ''websocket''"
  "header_value rfc_response ''Connection'' = Some ''Upgrade''"
  "header_value rfc_response ''Sec-WebSocket-Accept'' = Some ''s3pPLMBiTxaQ9kYGzzhZRbK+xOo=''"
  by (simp_all add: hs_eval)

lemma bad_response_parsed:
  "status_of bad_response = Some 101"
  "header_value bad_response ''Sec-WebSocket-Accept'' = Some ''s3pPLMBiTxaQ9kYGzzhZRbK+xOO=''"
  by (simp_all add: hs_eval2)

subsection \<open>Headers that come more than once\<close>

lemma find_sub_first:
  "c \<notin> set a \<Longrightarrow> find_sub [c, d] (a @ c # d # b) i = Some (i + length a)"
  by (induction a arbitrary: i) auto

lemma find_sub_none:
  "c \<notin> set a \<Longrightarrow> find_sub [c, d] a i = None"
  by (induction a arbitrary: i) auto

lemma str_find_append:
  "str_find (pre @ rest) pat (length pre) = find_sub pat rest (length pre)"
  by (simp add: str_find_def)

lemma emplace_fold:
  "foldl (\<lambda>h kv. emplace (fst kv) (snd kv) h) h hs name =
     (case h name of Some x \<Rightarrow> Some x | None \<Rightarrow> map_of hs name)"
proof (induction hs arbitrary: h)
  case Nil
  then show ?case by (simp split: option.splits)
next
  case (Cons kv hs)
  have "foldl (\<lambda>h kv. emplace (fst kv) (snd kv) h) h (kv # hs) name =
          (case emplace (fst kv) (snd kv) h name of Some x \<Rightarrow> Some x | None \<Rightarrow> map_of hs name)"
    by (simp add: Cons.IH)
  also have "\<dots> = (case h name of Some x \<Rightarrow> Some x | None \<Rightarrow> map_of (kv # hs) name)"
    by (cases kv) (auto simp: emplace_def split: option.splits)
  finally show ?case .
qed

lemma header_line_text:
  assumes "CHR '':'' \<notin> set k"
  shows "header_line (pre @ k @ '': '' @ v @ CRLF @ rest) (length pre)
           (length pre + length k + 2 + length v) h = emplace k v h"
proof -
  let ?mess = "pre @ k @ '': '' @ v @ CRLF @ rest"
  have c: "str_find ?mess '': '' (length pre) = Some (length pre + length k)"
    using find_sub_first[OF assms, of "CHR '' ''" "v @ CRLF @ rest" "length pre"]
    by (simp add: str_find_append)
  have k: "substr_to ?mess (length pre) (Some (length pre + length k)) = k"
    by (simp add: substr_to_def)
  have "drop (length pre + length k + 2) ?mess = v @ CRLF @ rest"
  proof -
    have "?mess = (pre @ k @ '': '') @ v @ CRLF @ rest" by simp
    moreover have "length (pre @ k @ '': '') = length pre + length k + 2" by simp
    ultimately show ?thesis by (metis append_eq_conv_conj)
  qed
  then have v: "substr_to ?mess (length pre + length k + 2)
                  (Some (length pre + length k + 2 + length v)) = v"
    by (simp add: substr_to_def)
  show ?thesis
    unfolding header_line_def c using k v by simp
qed

lemma next_crlf:
  assumes "\<forall>kv \<in> set hs. CHR 0x0D \<notin> set (fst kv) \<and> CHR 0x0D \<notin> set (snd kv)"
  shows "str_find (pre @ concat (map header_text hs) @ CRLF) CRLF (length pre)
           = Some (length pre + first_len hs)"
proof (cases hs)
  case Nil
  then show ?thesis by (simp add: str_find_append CRLF_def)
next
  case (Cons kv hs')
  obtain k v where kv: "kv = (k, v)" by (cases kv)
  have "CHR 0x0D \<notin> set (k @ '': '' @ v)" using assms Cons kv by auto
  from find_sub_first[OF this, of "CHR 0x0A" "concat (map header_text hs') @ CRLF" "length pre"]
  show ?thesis using Cons kv
    by (simp add: str_find_append CRLF_def header_text_def)
qed

lemma header_loop_text:
  assumes "\<forall>kv \<in> set hs. CHR 0x0D \<notin> set (fst kv) \<and> CHR '':'' \<notin> set (fst kv) \<and> CHR 0x0D \<notin> set (snd kv)"
  shows "header_loop (pre @ concat (map header_text hs) @ CRLF) (length pre)
           (length pre + first_len hs) h
         = foldl (\<lambda>h kv. emplace (fst kv) (snd kv) h) h hs"
  using assms
proof (induction hs arbitrary: pre h)
  case Nil
  have "str_find (pre @ CRLF) CRLF (length pre + 2) = None"
    by (simp add: str_find_def CRLF_def)
  moreover have "header_line (pre @ CRLF) (length pre) (length pre) h = h"
    using find_sub_none[of "CHR '':''" CRLF "CHR '' ''" "length pre"]
    by (simp add: header_line_def str_find_append CRLF_def)
  ultimately show ?case by (simp add: header_loop.simps)
next
  case (Cons kv hs)
  obtain k v where kv: "kv = (k, v)" by (cases kv)
  let ?pre' = "pre @ header_text kv"
  let ?mess = "pre @ concat (map header_text (kv # hs)) @ CRLF"
  have m: "?mess = ?pre' @ concat (map header_text hs) @ CRLF" by simp
  have l: "length ?pre' = length pre + first_len (kv # hs) + 2"
    by (simp add: header_text_def CRLF_def)
  have rest: "\<forall>kv \<in> set hs. CHR 0x0D \<notin> set (fst kv) \<and> CHR 0x0D \<notin> set (snd kv)"
    "\<forall>kv \<in> set hs. CHR 0x0D \<notin> set (fst kv) \<and> CHR '':'' \<notin> set (fst kv) \<and> CHR 0x0D \<notin> set (snd kv)"
    using Cons.prems by auto
  have nx: "str_find ?mess CRLF (length pre + first_len (kv # hs) + 2)
              = Some (length ?pre' + first_len hs)"
    using next_crlf[OF rest(1), of ?pre'] unfolding m l .
  have "CHR '':'' \<notin> set k" using Cons.prems kv by simp
  then have hl0: "header_line (pre @ k @ '': '' @ v @ CRLF @ concat (map header_text hs) @ CRLF)
           (length pre) (length pre + length k + 2 + length v) h = emplace k v h"
    by (rule header_line_text)
  have e1: "?mess = pre @ k @ '': '' @ v @ CRLF @ concat (map header_text hs) @ CRLF"
    by (simp add: kv header_text_def)
  have e2: "length pre + first_len (kv # hs) = length pre + length k + 2 + length v"
    by (simp add: kv)
  have hl: "header_line ?mess (length pre) (length pre + first_len (kv # hs)) h = emplace k v h"
    unfolding e1 e2 by (rule hl0)
  have "header_loop ?mess (length pre) (length pre + first_len (kv # hs)) h
        = header_loop ?mess (length ?pre') (length ?pre' + first_len hs) (emplace k v h)"
    by (subst header_loop.simps) (simp only: nx hl l option.case)
  also have "\<dots> = foldl (\<lambda>h kv. emplace (fst kv) (snd kv) h) (emplace k v h) hs"
    unfolding m by (rule Cons.IH[OF rest(2)])
  finally show ?case by (simp add: kv)
qed

text \<open>
  Claim C9, as amended. When the response is a status line followed by header lines
  \<^verbatim>\<open>name: value\<close> and an empty line (no carriage return inside a name, a value or the
  status line, and no colon inside a name), the value that the negotiator finds under
  a name is the value of the first line with exactly that name: of a header that
  comes more than once the first occurrence is used, and names are compared byte for
  byte, so matching is case-sensitive.
\<close>

theorem first_header_wins:
  assumes "CHR 0x0D \<notin> set status_line"
    and "\<forall>kv \<in> set hs. CHR 0x0D \<notin> set (fst kv) \<and> CHR '':'' \<notin> set (fst kv) \<and> CHR 0x0D \<notin> set (snd kv)"
    and "parse_response (response_text status_line hs) = Inr (status, headers)"
  shows "headers name = map_of hs name"
proof -
  let ?mess = "response_text status_line hs"
  have nl: "str_find ?mess CRLF 0 = Some (length status_line)"
    using find_sub_first[OF assms(1), of "CHR 0x0A" "concat (map header_text hs) @ CRLF" 0]
    by (simp add: str_find_def response_text_def CRLF_def)
  have m: "?mess = (status_line @ CRLF) @ concat (map header_text hs) @ CRLF"
    by (simp add: response_text_def)
  have l: "length (status_line @ CRLF) = length status_line + 2" by (simp add: CRLF_def)
  have rest: "\<forall>kv \<in> set hs. CHR 0x0D \<notin> set (fst kv) \<and> CHR 0x0D \<notin> set (snd kv)"
    using assms(2) by auto
  define N where "N = Suc (Suc (length status_line))"
  have lN: "length (status_line @ CRLF) = N"
    by (simp add: CRLF_def N_def)
  have nx: "str_find ?mess CRLF N = Some (N + first_len hs)"
    using next_crlf[OF rest, of "status_line @ CRLF"] unfolding lN m[symmetric] .
  from assms(3) obtain st where c:
    "(case str_find ?mess CRLF (Suc (Suc (length status_line))) of
        None \<Rightarrow> Inr (st, Map.empty)
      | Some nl' \<Rightarrow> Inr (st, header_loop ?mess (Suc (Suc (length status_line))) nl' Map.empty))
     = (Inr (status, headers) :: hs_error + nat \<times> (string \<rightharpoonup> string))"
    by (auto simp: parse_response_def nl Let_def split: sum.splits)
  have "headers = header_loop ?mess N (N + first_len hs) Map.empty"
    using c nx unfolding N_def by simp
  also have "\<dots> = foldl (\<lambda>h kv. emplace (fst kv) (snd kv) h) Map.empty hs"
    using header_loop_text[OF assms(2), of "status_line @ CRLF" Map.empty]
    unfolding lN m[symmetric] .
  finally show ?thesis by (simp add: emplace_fold)
qed

theorem first_header_wins_witness:
  "header_value dup_response ''Upgrade'' = Some ''websocket'' \<and>
   header_value dup_response ''upgrade'' = None"
proof -
  let ?sl = "''HTTP/1.1 101 Switching Protocols''"
  let ?hs = "[(''Upgrade'', ''websocket''), (''Upgrade'', ''h2c''), (''Connection'', ''Upgrade''),
      (''Sec-WebSocket-Accept'', ''s3pPLMBiTxaQ9kYGzzhZRbK+xOo='')]"
  have "status_of dup_response = Some 101" by (simp add: hs_eval2)
  then obtain headers where p: "parse_response (response_text ?sl ?hs) = Inr (101, headers)"
    by (auto simp: status_of_def dup_response_def split: sum.splits)
  have a: "CHR 0x0D \<notin> set ?sl" by simp
  have b: "\<forall>kv \<in> set ?hs. CHR 0x0D \<notin> set (fst kv) \<and> CHR '':'' \<notin> set (fst kv) \<and> CHR 0x0D \<notin> set (snd kv)"
    by simp
  from first_header_wins [OF a b p, of "''Upgrade''"] first_header_wins [OF a b p, of "''upgrade''"] p
  show ?thesis by (simp add: header_value_def dup_response_def)
qed

text \<open>
  Claim C9 as stated fails: with \<^verbatim>\<open>Upgrade: websocket\<close> followed by \<^verbatim>\<open>Upgrade: h2c\<close>
  the negotiator uses the first value and accepts the response.
\<close>

theorem last_header_counterexample:
  "header_value dup_response ''Upgrade'' = Some ''websocket'' \<and>
   handshake_response rfc_key (Some dup_response) = Inr Upgraded"
proof -
  have p: "status_of dup_response = Some 101"
    "header_value dup_response ''Upgrade'' = Some ''websocket''"
    "header_value dup_response ''Connection'' = Some ''Upgrade''"
    "header_value dup_response ''Sec-WebSocket-Accept'' = Some ''s3pPLMBiTxaQ9kYGzzhZRbK+xOo=''"
    by (simp_all add: hs_eval2)
  then show ?thesis
    using accept_rfc
    by (auto simp: handshake_response_def header_value_def status_of_def rfc_key_def
        split: sum.splits prod.splits if_splits)
qed

subsection \<open>The check of the accept value\<close>

lemma parse_status_101:
  "parse_status_line (''HTTP/1.1 101 Switching Protocols'' @ CRLF @ rest) (Some 32) = Inr 101"
  by (simp add: parse_status_line_def str_find_def substr_to_def stoul_def isspace_def isdigit_def
      digits_value_def CRLF_def Let_def)

lemma parse_response_text:
  assumes "CHR 0x0D \<notin> set status_line"
    and "\<forall>kv \<in> set hs. CHR 0x0D \<notin> set (fst kv) \<and> CHR '':'' \<notin> set (fst kv) \<and> CHR 0x0D \<notin> set (snd kv)"
  shows "parse_response (response_text status_line hs) =
     (case parse_status_line (response_text status_line hs) (Some (length status_line)) of
        Inl e \<Rightarrow> Inl e
      | Inr st \<Rightarrow> Inr (st, foldl (\<lambda>h kv. emplace (fst kv) (snd kv) h) Map.empty hs))"
proof -
  let ?mess = "response_text status_line hs"
  have nl: "str_find ?mess CRLF 0 = Some (length status_line)"
    using find_sub_first[OF assms(1), of "CHR 0x0A" "concat (map header_text hs) @ CRLF" 0]
    by (simp add: str_find_def response_text_def CRLF_def)
  have m: "?mess = (status_line @ CRLF) @ concat (map header_text hs) @ CRLF"
    by (simp add: response_text_def)
  have rest: "\<forall>kv \<in> set hs. CHR 0x0D \<notin> set (fst kv) \<and> CHR 0x0D \<notin> set (snd kv)"
    using assms(2) by auto
  define N where "N = Suc (Suc (length status_line))"
  have lN: "length (status_line @ CRLF) = N"
    by (simp add: CRLF_def N_def)
  have nx: "str_find ?mess CRLF N = Some (N + first_len hs)"
    using next_crlf[OF rest, of "status_line @ CRLF"] unfolding lN m[symmetric] .
  have hl: "header_loop ?mess N (N + first_len hs) Map.empty
              = foldl (\<lambda>h kv. emplace (fst kv) (snd kv) h) Map.empty hs"
    using header_loop_text[OF assms(2), of "status_line @ CRLF" Map.empty]
    unfolding lN m[symmetric] .
  show ?thesis
  proof (cases "parse_status_line ?mess (Some (length status_line))")
    case (Inl e)
    then show ?thesis by (simp add: parse_response_def nl Let_def)
  next
    case (Inr st)
    then have "parse_response ?mess =
        (case str_find ?mess CRLF (Suc (Suc (length status_line))) of
             None \<Rightarrow> Inr (st, Map.empty)
           | Some nl' \<Rightarrow> Inr (st, header_loop ?mess (Suc (Suc (length status_line))) nl' Map.empty))"
      by (simp add: parse_response_def nl Let_def)
    also have "\<dots> = Inr (st, header_loop ?mess N (N + first_len hs) Map.empty)"
      using nx unfolding N_def by simp
    finally show ?thesis using Inr by (simp add: hl)
  qed
qed

lemma parse_response_101:
  assumes "\<forall>kv \<in> set hs. CHR 0x0D \<notin> set (fst kv) \<and> CHR '':'' \<notin> set (fst kv) \<and> CHR 0x0D \<notin> set (snd kv)"
  shows "parse_response (response_text ''HTTP/1.1 101 Switching Protocols'' hs) =
           Inr (101, foldl (\<lambda>h kv. emplace (fst kv) (snd kv) h) Map.empty hs)"
proof -
  define sl where "sl = ''HTTP/1.1 101 Switching Protocols''"
  have l: "length sl = 32" by (simp add: sl_def)
  have cr: "CHR 0x0D \<notin> set sl" by (simp add: sl_def)
  have ps: "parse_status_line (response_text sl hs) (Some 32) = Inr 101"
    unfolding response_text_def sl_def by (rule parse_status_101)
  from parse_response_text[OF cr assms]
  have "parse_response (response_text sl hs) =
           Inr (101, foldl (\<lambda>h kv. emplace (fst kv) (snd kv) h) Map.empty hs)"
    by (simp add: l ps)
  then show ?thesis unfolding sl_def .
qed

text \<open>
  Claim C1. The value that \<^verbatim>\<open>send_handshake\<close> expects is the base64 encoding of the
  SHA-1 digest of the key followed by the GUID
  \<^verbatim>\<open>258EAFA5-E914-47DA-95CA-C5AB0DC85B11\<close>. For every key and every response text: a
  response is accepted only if its status is 101 and the value parsed for
  \<^verbatim>\<open>Sec-WebSocket-Accept\<close> is that value; with status 101 and any other value, or
  none, \<^verbatim>\<open>send_handshake\<close> throws. For a response made of the status line
  \<^verbatim>\<open>HTTP/1.1 101 Switching Protocols\<close> and header lines among which the first
  \<^verbatim>\<open>Upgrade\<close> is \<^verbatim>\<open>websocket\<close> and the first \<^verbatim>\<open>Connection\<close> is \<^verbatim>\<open>Upgrade\<close>, the
  outcome is decided by the first \<^verbatim>\<open>Sec-WebSocket-Accept\<close> line alone: accepted if
  it carries that value, "Malformed response" if there is none, "Invalid value for
  Sec-WebSocket-Accept" otherwise. For the key "dGhlIHNhbXBsZSBub25jZQ==" the value
  is "s3pPLMBiTxaQ9kYGzzhZRbK+xOo=", and for the key "x3JJHMbDL1EzLkh9GBhXDw==" it is
  "HSmrc0sMlYUkAGmm5OPpG2HaGWk=".
\<close>

theorem accept_check:
  "(handshake_response key (Some mess) = Inr Upgraded \<longrightarrow>
      status_of mess = Some 101 \<and>
      header_value mess ''Sec-WebSocket-Accept'' =
        Some (b64encode (sha1 (map of_char (key @ ''258EAFA5-E914-47DA-95CA-C5AB0DC85B11''))))) \<and>
   (status_of mess = Some 101 \<and>
    header_value mess ''Sec-WebSocket-Accept'' \<noteq>
      Some (b64encode (sha1 (map of_char (key @ ''258EAFA5-E914-47DA-95CA-C5AB0DC85B11'')))) \<longrightarrow>
      handshake_response key (Some mess) = Inl Malformed_response \<or>
      handshake_response key (Some mess) = Inl Invalid_accept) \<and>
   ((\<forall>kv \<in> set hs. CHR 0x0D \<notin> set (fst kv) \<and> CHR '':'' \<notin> set (fst kv) \<and> CHR 0x0D \<notin> set (snd kv)) \<and>
    map_of hs ''Upgrade'' = Some ''websocket'' \<and> map_of hs ''Connection'' = Some ''Upgrade'' \<longrightarrow>
      handshake_response key (Some (response_text ''HTTP/1.1 101 Switching Protocols'' hs)) =
        (if map_of hs ''Sec-WebSocket-Accept'' =
              Some (b64encode (sha1 (map of_char (key @ ''258EAFA5-E914-47DA-95CA-C5AB0DC85B11''))))
         then Inr Upgraded
         else if map_of hs ''Sec-WebSocket-Accept'' = None then Inl Malformed_response
         else Inl Invalid_accept)) \<and>
   b64encode (sha1 (map of_char (''dGhlIHNhbXBsZSBub25jZQ=='' @ ''258EAFA5-E914-47DA-95CA-C5AB0DC85B11'')))
     = ''s3pPLMBiTxaQ9kYGzzhZRbK+xOo='' \<and>
   b64encode (sha1 (map of_char (''x3JJHMbDL1EzLkh9GBhXDw=='' @ ''258EAFA5-E914-47DA-95CA-C5AB0DC85B11'')))
     = ''HSmrc0sMlYUkAGmm5OPpG2HaGWk=''"
proof -
  have av: "accept_value k = b64encode (sha1 (map of_char (k @ ''258EAFA5-E914-47DA-95CA-C5AB0DC85B11'')))" for k
    by (simp only: accept_value_def MAGIC_STRING_def)
  have 1: "handshake_response key (Some mess) = Inr Upgraded \<longrightarrow>
      status_of mess = Some 101 \<and> header_value mess ''Sec-WebSocket-Accept'' = Some (accept_value key)"
    by (auto simp: handshake_response_def header_value_def status_of_def
        split: sum.splits prod.splits if_splits)
  have 2: "status_of mess = Some 101 \<and>
    header_value mess ''Sec-WebSocket-Accept'' \<noteq> Some (accept_value key) \<longrightarrow>
      handshake_response key (Some mess) = Inl Malformed_response \<or>
      handshake_response key (Some mess) = Inl Invalid_accept"
    by (auto simp: handshake_response_def header_value_def status_of_def
        split: sum.splits prod.splits if_splits)
  have 3: "handshake_response key (Some (response_text ''HTTP/1.1 101 Switching Protocols'' hs)) =
        (if map_of hs ''Sec-WebSocket-Accept'' = Some (accept_value key)
         then Inr Upgraded
         else if map_of hs ''Sec-WebSocket-Accept'' = None then Inl Malformed_response
         else Inl Invalid_accept)"
    if "\<forall>kv \<in> set hs. CHR 0x0D \<notin> set (fst kv) \<and> CHR '':'' \<notin> set (fst kv) \<and> CHR 0x0D \<notin> set (snd kv)"
      "map_of hs ''Upgrade'' = Some ''websocket''" "map_of hs ''Connection'' = Some ''Upgrade''"
    using that(2,3)
    by (auto simp: handshake_response_def parse_response_101[OF that(1)] emplace_fold)
  from 1 2 3 accept_rfc accept_second show ?thesis
    unfolding av by blast
qed

theorem accept_check_witness:
  "handshake_response rfc_key (Some (response_text ''HTTP/1.1 101 Switching Protocols''
      [(''Upgrade'', ''websocket''), (''Connection'', ''Upgrade''),
       (''Sec-WebSocket-Accept'', ''s3pPLMBiTxaQ9kYGzzhZRbK+xOo='')])) = Inr Upgraded \<and>
   handshake_response rfc_key (Some (response_text ''HTTP/1.1 101 Switching Protocols''
      [(''Upgrade'', ''websocket''), (''Connection'', ''Upgrade''),
       (''Sec-WebSocket-Accept'', ''s3pPLMBiTxaQ9kYGzzhZRbK+xOO='')])) = Inl Invalid_accept \<and>
   handshake_response rfc_key (Some (response_text ''HTTP/1.1 101 Switching Protocols''
      [(''Upgrade'', ''websocket''), (''Connection'', ''Upgrade'')])) = Inl Malformed_response \<and>
   handshake_response ''x3JJHMbDL1EzLkh9GBhXDw=='' (Some (response_text ''HTTP/1.1 101 Switching Protocols''
      [(''Upgrade'', ''websocket''), (''Connection'', ''Upgrade''),
       (''Sec-WebSocket-Accept'', ''s3pPLMBiTxaQ9kYGzzhZRbK+xOo='')])) = Inl Invalid_accept \<and>
   (handshake_response rfc_key (Some bad_response) = Inl Malformed_response \<or>
    handshake_response rfc_key (Some bad_response) = Inl Invalid_accept) \<and>
   header_value rfc_response ''Sec-WebSocket-Accept'' = Some ''s3pPLMBiTxaQ9kYGzzhZRbK+xOo=''"
proof -
  let ?g = "''258EAFA5-E914-47DA-95CA-C5AB0DC85B11''"
  let ?k = "''dGhlIHNhbXBsZSBub25jZQ==''"
  let ?k2 = "''x3JJHMbDL1EzLkh9GBhXDw==''"
  let ?sl = "''HTTP/1.1 101 Switching Protocols''"
  let ?good = "[(''Upgrade'', ''websocket''), (''Connection'', ''Upgrade''),
       (''Sec-WebSocket-Accept'', ''s3pPLMBiTxaQ9kYGzzhZRbK+xOo='')]"
  let ?bad = "[(''Upgrade'', ''websocket''), (''Connection'', ''Upgrade''),
       (''Sec-WebSocket-Accept'', ''s3pPLMBiTxaQ9kYGzzhZRbK+xOO='')]"
  let ?none = "[(''Upgrade'', ''websocket''), (''Connection'', ''Upgrade'')]"
  note t = accept_check [of ?k rfc_response ?good]
  have v: "b64encode (sha1 (map of_char (?k @ ?g))) = ''s3pPLMBiTxaQ9kYGzzhZRbK+xOo=''"
    "b64encode (sha1 (map of_char (?k2 @ ?g))) = ''HSmrc0sMlYUkAGmm5OPpG2HaGWk=''"
    using t by blast+
  have a: "handshake_response ?k (Some (response_text ?sl ?good)) = Inr Upgraded"
    using accept_check [of ?k rfc_response ?good] unfolding v by simp
  have b: "handshake_response ?k (Some (response_text ?sl ?bad)) = Inl Invalid_accept"
    using accept_check [of ?k rfc_response ?bad] unfolding v by simp
  have c: "handshake_response ?k (Some (response_text ?sl ?none)) = Inl Malformed_response"
    using accept_check [of ?k rfc_response ?none] unfolding v by simp
  have d: "handshake_response ?k2 (Some (response_text ?sl ?good)) = Inl Invalid_accept"
    using accept_check [of ?k2 rfc_response ?good] unfolding v by simp
  have e: "handshake_response ?k (Some bad_response) = Inl Malformed_response \<or>
           handshake_response ?k (Some bad_response) = Inl Invalid_accept"
    using accept_check [of ?k bad_response ?good] bad_response_parsed unfolding v by simp
  have "rfc_response = response_text ?sl ?good"
    by (simp add: rfc_response_def response_text_def header_text_def)
  with a have "handshake_response ?k (Some rfc_response) = Inr Upgraded" by simp
  with t have f: "header_value rfc_response ''Sec-WebSocket-Accept'' = Some ''s3pPLMBiTxaQ9kYGzzhZRbK+xOo=''"
    unfolding v by blast
  from a b c d e f show ?thesis by (simp add: rfc_key_def)
qed

end
